theory Spec2Isabelle
  imports Main
begin

section \<open>Python strings\<close>

text \<open>
  A Python \<^verbatim>\<open>str\<close> is a sequence of Unicode code points, so a string of the parser is a
  list of natural numbers and its length counts code points.  ASCII text is written as a
  HOL string literal and converted by \<open>u\<close>; the two ideographs of the slug example are
  given by their code points.
\<close>

type_synonym uchar = nat
type_synonym ustr = "nat list"

definition u :: "string \<Rightarrow> ustr" where
  "u s = map of_char s"

text \<open>
  \<^verbatim>\<open>str.isspace\<close> on one code point.  \<^verbatim>\<open>str.strip()\<close> and the class \<^verbatim>\<open>\s\<close> of
  \<^verbatim>\<open>re\<close> (on \<^verbatim>\<open>str\<close> patterns) use the same test: the ASCII controls 9..13 and 28..31,
  the space, and the code points U+0085, U+00A0, U+1680, U+2000..U+200A, U+2028, U+2029,
  U+202F, U+205F and U+3000.
\<close>

definition isspace :: "uchar \<Rightarrow> bool" where
  "isspace c = ((9 \<le> c \<and> c \<le> 13) \<or> (28 \<le> c \<and> c \<le> 32) \<or> c = 133 \<or> c = 160 \<or>
     c = 5760 \<or> (8192 \<le> c \<and> c \<le> 8202) \<or> c = 8232 \<or> c = 8233 \<or> c = 8239 \<or>
     c = 8287 \<or> c = 12288)"

text \<open>
  The remaining character tables of Python's Unicode database are not part of the
  repository.  Their ASCII part is written out; outside ASCII they are parameters of the
  model: \<open>uni_alnum\<close> is \<^verbatim>\<open>str.isalnum\<close>, \<open>uni_decimal\<close> is \<^verbatim>\<open>str.isdecimal\<close> and
  \<open>uni_lower\<close> is \<^verbatim>\<open>str.lower\<close> on a whole string (lowercasing is not character-wise
  outside ASCII).  Every theorem below holds for all tables.
\<close>

record unicode_tables =
  uni_alnum :: "uchar \<Rightarrow> bool"
  uni_decimal :: "uchar \<Rightarrow> bool"
  uni_lower :: "ustr \<Rightarrow> ustr"

definition ascii_alnum :: "uchar \<Rightarrow> bool" where
  "ascii_alnum c = ((48 \<le> c \<and> c \<le> 57) \<or> (65 \<le> c \<and> c \<le> 90) \<or> (97 \<le> c \<and> c \<le> 122))"

text \<open>The class \<^verbatim>\<open>\d\<close>: a decimal digit.\<close>

definition isdecimal :: "unicode_tables \<Rightarrow> uchar \<Rightarrow> bool" where
  "isdecimal U c = (if c < 128 then 48 \<le> c \<and> c \<le> 57 else uni_decimal U c)"

text \<open>The class \<^verbatim>\<open>\w\<close>: an alphanumeric character or the underscore.\<close>

definition isword :: "unicode_tables \<Rightarrow> uchar \<Rightarrow> bool" where
  "isword U c = (if c < 128 then ascii_alnum c \<or> c = 95 else uni_alnum U c)"

text \<open>The range U+4E00..U+9FFF (the CJK unified ideographs) of the slug pattern.\<close>

definition cjk :: "uchar \<Rightarrow> bool" where
  "cjk c = (19968 \<le> c \<and> c \<le> 40959)"

definition ascii_lower :: "uchar \<Rightarrow> uchar" where
  "ascii_lower c = (if 65 \<le> c \<and> c \<le> 90 then c + 32 else c)"

text \<open>
  \<^verbatim>\<open>str.lower()\<close>.  On a string of ASCII characters and CJK unified ideographs (which
  have no case) it maps \<^verbatim>\<open>A-Z\<close> to \<^verbatim>\<open>a-z\<close> and keeps every other character; any other
  string is lowercased by the table.
\<close>

definition lower :: "unicode_tables \<Rightarrow> ustr \<Rightarrow> ustr" where
  "lower U s = (if list_all (\<lambda>c. c < 128 \<or> cjk c) s then map ascii_lower s else uni_lower U s)"

text \<open>
  Tables of a database without alphanumerics, digits or case outside ASCII.  They serve
  the closed evaluations of ASCII inputs, which never consult a table.
\<close>

definition ascii_only :: unicode_tables where
  "ascii_only = \<lparr>uni_alnum = (\<lambda>c. False), uni_decimal = (\<lambda>c. False), uni_lower = (\<lambda>s. s)\<rparr>"

text \<open>\<^verbatim>\<open>s.strip()\<close> and \<^verbatim>\<open>s.strip(chars)\<close>.\<close>

definition strip :: "ustr \<Rightarrow> ustr" where
  "strip s = rev (dropWhile isspace (rev (dropWhile isspace s)))"

definition strip_chars :: "ustr \<Rightarrow> ustr \<Rightarrow> ustr" where
  "strip_chars cs s = rev (dropWhile (\<lambda>c. c \<in> set cs) (rev (dropWhile (\<lambda>c. c \<in> set cs) s)))"

text \<open>\<^verbatim>\<open>s.startswith(p)\<close> and \<^verbatim>\<open>s.endswith(p)\<close>.\<close>

definition startswith :: "ustr \<Rightarrow> ustr \<Rightarrow> bool" where
  "startswith s p = (take (length p) s = p)"

definition endswith :: "ustr \<Rightarrow> ustr \<Rightarrow> bool" where
  "endswith s p = (length p \<le> length s \<and> drop (length s - length p) s = p)"

text \<open>\<^verbatim>\<open>s.split(sep)\<close> for a separator of one character: the pieces between the separators.\<close>

fun split_from :: "uchar \<Rightarrow> ustr \<Rightarrow> ustr \<Rightarrow> ustr list" where
  "split_from sep cur [] = [cur]"
| "split_from sep cur (c # cs) =
     (if c = sep then cur # split_from sep [] cs else split_from sep (cur @ [c]) cs)"

definition split :: "uchar \<Rightarrow> ustr \<Rightarrow> ustr list" where
  "split sep s = split_from sep [] s"

text \<open>\<^verbatim>\<open>sep.join(xs)\<close>.\<close>

fun join :: "ustr \<Rightarrow> ustr list \<Rightarrow> ustr" where
  "join sep [] = []"
| "join sep [x] = x"
| "join sep (x # y # ys) = x @ sep @ join sep (y # ys)"

text \<open>
  \<^verbatim>\<open>s.replace(old, new)\<close>: every occurrence of \<open>old\<close>, leftmost first and without
  overlap.  For the empty \<open>old\<close> Python puts \<open>new\<close> before every character and at the end.
\<close>

function replace :: "ustr \<Rightarrow> ustr \<Rightarrow> ustr \<Rightarrow> ustr" where
  "replace old new s =
     (if old = [] then new @ concat (map (\<lambda>c. c # new) s)
      else if s = [] then []
      else if startswith s old then new @ replace old new (drop (length old) s)
      else hd s # replace old new (tl s))"
  by pat_completeness auto
termination
  by (relation "measure (\<lambda>(old, new, s). length s)") auto

declare replace.simps [simp del]

text \<open>\<^verbatim>\<open>str(n)\<close> for a natural number, as an f-string prints it.\<close>

fun str_nat :: "nat \<Rightarrow> ustr" where
  "str_nat n = (if n < 10 then [48 + n] else str_nat (n div 10) @ [48 + n mod 10])"

declare str_nat.simps [simp del]

section \<open>Regular expressions\<close>

text \<open>
  The patterns of the parser, as Python's \<^verbatim>\<open>re\<close> reads them: literals, character
  classes, \<^verbatim>\<open>^\<close> and \<^verbatim>\<open>$\<close>, sequences, numbered groups, greedy and lazy repetition
  with bounds, and the negative look-behind and look-ahead on one character.
\<close>

datatype re =
    Chr uchar
  | Cls "uchar \<Rightarrow> bool"
  | Bol
  | Eol
  | Eps
  | Seq re re
  | Grp nat re
  | Rep nat "nat option" bool re
  | NotBehind "uchar \<Rightarrow> bool"
  | NotAhead "uchar \<Rightarrow> bool"

text \<open>
  A position of the matcher: the characters before it (the nearest first), the characters
  after it, and the groups captured so far.
\<close>

type_synonym mpos = "ustr \<times> ustr \<times> (nat \<rightharpoonup> ustr)"

text \<open>
  \<^verbatim>\<open>re\<close> is a backtracking matcher: it tries the alternatives of a repetition in a
  fixed order and takes the first that lets the rest of the pattern match.  \<open>matches r p\<close>
  lists the positions where \<open>r\<close> can end when started at \<open>p\<close>, in that order, so the head
  of the list is the match Python returns.

  \<open>rep k lo hi greedy f p\<close> repeats the matcher \<open>f\<close> between \<open>lo\<close> and \<open>hi\<close> times
  (\<open>None\<close>: no upper bound): a greedy repetition tries one more round before stopping, a
  lazy one stops first.  Every repeated subpattern of this parser consumes a character, so
  no repetition runs more rounds than there are characters left; \<open>k\<close> starts there.
\<close>

fun rep :: "nat \<Rightarrow> nat \<Rightarrow> nat option \<Rightarrow> bool \<Rightarrow> (mpos \<Rightarrow> mpos list) \<Rightarrow> mpos \<Rightarrow> mpos list" where
  "rep 0 lo hi greedy f p = (if lo = 0 then [p] else [])"
| "rep (Suc k) lo hi greedy f p =
     (let more = (if hi = Some 0 then []
                  else concat (map (rep k (lo - 1) (map_option (\<lambda>h. h - 1) hi) greedy f) (f p)));
          stop = (if lo = 0 then [p] else [])
      in if greedy then more @ stop else stop @ more)"

primrec matches :: "re \<Rightarrow> mpos \<Rightarrow> mpos list" where
  "matches (Chr c) = (\<lambda>(b, a, g).
     case a of [] \<Rightarrow> [] | x # xs \<Rightarrow> if x = c then [(x # b, xs, g)] else [])"
| "matches (Cls P) = (\<lambda>(b, a, g).
     case a of [] \<Rightarrow> [] | x # xs \<Rightarrow> if P x then [(x # b, xs, g)] else [])"
| "matches Bol = (\<lambda>(b, a, g). if b = [] then [(b, a, g)] else [])"
| "matches Eol = (\<lambda>(b, a, g). if a = [] \<or> a = [10] then [(b, a, g)] else [])"
| "matches Eps = (\<lambda>p. [p])"
| "matches (Seq r1 r2) = (\<lambda>p. concat (map (matches r2) (matches r1 p)))"
| "matches (Grp n r) = (\<lambda>(b, a, g).
     map (\<lambda>(b', a', g'). (b', a', g'(n \<mapsto> rev (take (length b' - length b) b'))))
       (matches r (b, a, g)))"
| "matches (Rep lo hi greedy r) = (\<lambda>(b, a, g). rep (length a) lo hi greedy (matches r) (b, a, g))"
| "matches (NotBehind P) = (\<lambda>(b, a, g).
     case b of [] \<Rightarrow> [(b, a, g)] | x # xs \<Rightarrow> if P x then [] else [(b, a, g)])"
| "matches (NotAhead P) = (\<lambda>(b, a, g).
     case a of [] \<Rightarrow> [(b, a, g)] | x # xs \<Rightarrow> if P x then [] else [(b, a, g)])"

text \<open>A pattern written as the list of its parts.\<close>

fun seq :: "re list \<Rightarrow> re" where
  "seq [] = Eps"
| "seq [r] = r"
| "seq (r # rs) = Seq r (seq rs)"

text \<open>The classes \<^verbatim>\<open>[...]\<close>, \<^verbatim>\<open>[^...]\<close>, \<^verbatim>\<open>.\<close> (anything but a newline) and \<^verbatim>\<open>\s\<close>.\<close>

definition any_of :: "ustr \<Rightarrow> re" where
  "any_of cs = Cls (\<lambda>c. c \<in> set cs)"

definition none_of :: "ustr \<Rightarrow> re" where
  "none_of cs = Cls (\<lambda>c. c \<notin> set cs)"

definition dot :: re where
  "dot = Cls (\<lambda>c. c \<noteq> 10)"

definition ws :: re where
  "ws = Cls isspace"

text \<open>The quantifiers \<^verbatim>\<open>*\<close>, \<^verbatim>\<open>+\<close>, \<^verbatim>\<open>?\<close>, \<^verbatim>\<open>{n}\<close> and the lazy \<^verbatim>\<open>+?\<close>.\<close>

definition many :: "re \<Rightarrow> re" where
  "many r = Rep 0 None True r"

definition many1 :: "re \<Rightarrow> re" where
  "many1 r = Rep 1 None True r"

definition maybe :: "re \<Rightarrow> re" where
  "maybe r = Rep 0 (Some 1) True r"

definition exactly :: "nat \<Rightarrow> re \<Rightarrow> re" where
  "exactly n r = Rep n (Some n) True r"

definition lazy1 :: "re \<Rightarrow> re" where
  "lazy1 r = Rep 1 None False r"

text \<open>
  \<^verbatim>\<open>re.match(pattern, s)\<close>: the first match at the start of \<open>s\<close>, as its groups, or
  \<open>None\<close>.
\<close>

definition re_match :: "re \<Rightarrow> ustr \<Rightarrow> (nat \<rightharpoonup> ustr) option" where
  "re_match r s = (case matches r ([], s, Map.empty) of [] \<Rightarrow> None | (b, a, g) # _ \<Rightarrow> Some g)"

text \<open>
  A replacement template: literal text and the references \<^verbatim>\<open>\1\<close>, \<^verbatim>\<open>\2\<close> to groups
  (a group that did not take part expands to the empty string).
\<close>

datatype tpl = Lit ustr | Ref nat

definition expand :: "tpl list \<Rightarrow> (nat \<rightharpoonup> ustr) \<Rightarrow> ustr" where
  "expand t g = concat (map (\<lambda>x. case x of Lit s \<Rightarrow> s
                                    | Ref n \<Rightarrow> (case g n of None \<Rightarrow> [] | Some s \<Rightarrow> s)) t)"

text \<open>
  \<^verbatim>\<open>pattern.sub(repl, s)\<close>: scan from the left; where the pattern matches, emit the
  expanded template and go on behind the match, elsewhere copy one character.  The
  look-behind sees the characters of the subject before the position, replaced or not.
  No pattern of this parser matches the empty string; such a match would be replaced and
  the scan would go on one character further.
\<close>

function sub_from :: "re \<Rightarrow> tpl list \<Rightarrow> ustr \<Rightarrow> ustr \<Rightarrow> ustr" where
  "sub_from r t b a =
     (case matches r (b, a, Map.empty) of
        (b', a', g) # _ \<Rightarrow>
          if length a' < length a then expand t g @ sub_from r t b' a'
          else expand t g @ (case a of [] \<Rightarrow> [] | x # xs \<Rightarrow> x # sub_from r t (x # b) xs)
      | [] \<Rightarrow> (case a of [] \<Rightarrow> [] | x # xs \<Rightarrow> x # sub_from r t (x # b) xs))"
  by pat_completeness auto
termination
  by (relation "measure (\<lambda>(r, t, b, a). length a)") auto

declare sub_from.simps [simp del]

definition re_sub :: "re \<Rightarrow> tpl list \<Rightarrow> ustr \<Rightarrow> ustr" where
  "re_sub r t s = sub_from r t [] s"

text \<open>\<^verbatim>\<open>m.group(n)\<close> for a group that took part in the match.\<close>

definition group :: "(nat \<rightharpoonup> ustr) \<Rightarrow> nat \<Rightarrow> ustr" where
  "group g n = (case g n of None \<Rightarrow> [] | Some s \<Rightarrow> s)"

text \<open>A literal character and a literal string as patterns.\<close>

definition ch :: "char \<Rightarrow> re" where
  "ch c = Chr (of_char c)"

definition lits :: "string \<Rightarrow> re" where
  "lits s = seq (map ch s)"

section \<open>The parser\<close>

subsection \<open>Inline rules\<close>

text \<open>
  \<^verbatim>\<open>MarkdownParser.INLINE_RULES\<close>, in the order of the source: image, link, inline code
  (between two characters 96, the backtick), bold italic with asterisks and with
  underscores, bold with asterisks and with underscores, italic with an asterisk, italic
  with an underscore that no ASCII letter or digit touches, and strike-through.
\<close>

definition INLINE_RULES :: "(re \<times> tpl list) list" where
  "INLINE_RULES = [
     (seq [lits ''!['', Grp 1 (many (none_of (u '']''))), lits '']('',
           Grp 2 (many1 (none_of (u '')''))), lits '')''],
      [Lit (u ''<img src=\"''), Ref 2, Lit (u ''\" alt=\"''), Ref 1, Lit (u ''\">'')]),
     (seq [lits ''['', Grp 1 (many1 (none_of (u '']''))), lits '']('',
           Grp 2 (many1 (none_of (u '')''))), lits '')''],
      [Lit (u ''<a href=\"''), Ref 2, Lit (u ''\">''), Ref 1, Lit (u ''</a>'')]),
     (seq [Chr 96, Grp 1 (many1 (none_of [96])), Chr 96],
      [Lit (u ''<code>''), Ref 1, Lit (u ''</code>'')]),
     (seq [exactly 3 (ch CHR ''*''), Grp 1 (lazy1 dot), exactly 3 (ch CHR ''*'')],
      [Lit (u ''<strong><em>''), Ref 1, Lit (u ''</em></strong>'')]),
     (seq [exactly 3 (ch CHR ''_''), Grp 1 (lazy1 dot), exactly 3 (ch CHR ''_'')],
      [Lit (u ''<strong><em>''), Ref 1, Lit (u ''</em></strong>'')]),
     (seq [exactly 2 (ch CHR ''*''), Grp 1 (lazy1 dot), exactly 2 (ch CHR ''*'')],
      [Lit (u ''<strong>''), Ref 1, Lit (u ''</strong>'')]),
     (seq [exactly 2 (ch CHR ''_''), Grp 1 (lazy1 dot), exactly 2 (ch CHR ''_'')],
      [Lit (u ''<strong>''), Ref 1, Lit (u ''</strong>'')]),
     (seq [ch CHR ''*'', Grp 1 (lazy1 dot), ch CHR ''*''],
      [Lit (u ''<em>''), Ref 1, Lit (u ''</em>'')]),
     (seq [NotBehind ascii_alnum, ch CHR ''_'', Grp 1 (lazy1 dot), ch CHR ''_'',
           NotAhead ascii_alnum],
      [Lit (u ''<em>''), Ref 1, Lit (u ''</em>'')]),
     (seq [lits ''~~'', Grp 1 (lazy1 dot), lits ''~~''],
      [Lit (u ''<del>''), Ref 1, Lit (u ''</del>'')])]"

text \<open>\<^verbatim>\<open>parse_inline\<close>: the loop over the rules, each applied to the text so far.\<close>

fun apply_rules :: "(re \<times> tpl list) list \<Rightarrow> ustr \<Rightarrow> ustr" where
  "apply_rules [] text = text"
| "apply_rules ((pattern, repl) # rules) text = apply_rules rules (re_sub pattern repl text)"

definition parse_inline :: "ustr \<Rightarrow> ustr" where
  "parse_inline text = apply_rules INLINE_RULES text"

subsection \<open>The patterns of the block splitter\<close>

text \<open>
  In the order of their use in \<^verbatim>\<open>parse\<close>: the ATX heading
  \<^verbatim>\<open>^(#{1,6})\s+(.+)$\<close>, the horizontal rule \<^verbatim>\<open>^(\s*[-*_]\s*){3,}$\<close>, the bullet
  \<^verbatim>\<open>^(\s*)([-*+])\s+\<close>, the numbered item \<^verbatim>\<open>^(\s*)\d+\.\s+\<close>, the delimiter row
  \<^verbatim>\<open>^[\s|:-]+$\<close>; then the characters a slug drops (all but word characters, the
  ideographs U+4E00..U+9FFF and the hyphen), and the quote marker \<^verbatim>\<open>^>\s?\<close>.
\<close>

definition heading_re :: re where
  "heading_re = seq [Bol, Grp 1 (Rep 1 (Some 6) True (ch CHR ''#'')), many1 ws,
                     Grp 2 (many1 dot), Eol]"

definition hr_re :: re where
  "hr_re = seq [Bol, Rep 3 None True (Grp 1 (seq [many ws, any_of (u ''-*_''), many ws])), Eol]"

definition ul_re :: re where
  "ul_re = seq [Bol, Grp 1 (many ws), Grp 2 (any_of (u ''-*+'')), many1 ws]"

definition ol_re :: "unicode_tables \<Rightarrow> re" where
  "ol_re U = seq [Bol, Grp 1 (many ws), many1 (Cls (isdecimal U)), ch CHR ''.'', many1 ws]"

definition delim_re :: re where
  "delim_re = seq [Bol, many1 (Cls (\<lambda>c. isspace c \<or> c \<in> set (u ''|:-''))), Eol]"

definition slug_re :: "unicode_tables \<Rightarrow> re" where
  "slug_re U = Cls (\<lambda>c. \<not> (isword U c \<or> cjk c \<or> c = 45))"

definition quote_re :: re where
  "quote_re = seq [Bol, ch CHR ''>'', maybe ws]"

text \<open>The newline and the fence of three backticks.\<close>

definition nl :: ustr where
  "nl = [10]"

definition fence :: ustr where
  "fence = [96, 96, 96]"

subsection \<open>The parser object and the table of contents\<close>

text \<open>
  A heading record is the tuple \<^verbatim>\<open>(level, slug, raw text)\<close>; the only field of a
  \<^verbatim>\<open>MarkdownParser\<close> is its list of headings, empty in a new object.
\<close>

type_synonym heading = "nat \<times> ustr \<times> ustr"

record parser =
  headings :: "heading list"

definition new_parser :: parser where
  "new_parser = \<lparr>headings = []\<rparr>"

definition slug_of :: "heading \<Rightarrow> ustr" where
  "slug_of h = fst (snd h)"

text \<open>
  \<^verbatim>\<open>generate_toc\<close>: one item per heading, appended in the order of the list.  The
  indentation repeats two spaces \<^verbatim>\<open>lv-1\<close> times (no times for a level of 0, in Python
  as with the truncating subtraction here).  A method takes the object and returns its
  result with the object as it leaves it.
\<close>

definition toc_item :: "heading \<Rightarrow> ustr" where
  "toc_item h = (case h of (lv, slug, text) \<Rightarrow>
     concat (replicate (lv - 1) (u ''  '')) @ u ''<li class=\"toc-h'' @ str_nat lv @
     u ''\"><a href=\"#'' @ slug @ u ''\">'' @ text @ u ''</a></li>'')"

fun toc_items :: "heading list \<Rightarrow> ustr list \<Rightarrow> ustr list" where
  "toc_items [] items = items"
| "toc_items (h # hs) items = toc_items hs (items @ [toc_item h])"

definition generate_toc :: "parser \<Rightarrow> ustr \<times> parser" where
  "generate_toc self =
     (if headings self = [] then ([], self)
      else (u ''<ul class=\"toc-list\">'' @ nl @ join nl (toc_items (headings self) []) @ nl @
            u ''</ul>'', self))"

subsection \<open>Block handlers\<close>

text \<open>
  Every handler gets the list of lines and the cursor \<open>s\<close> and returns its HTML with the
  new cursor.  \<^verbatim>\<open>parse\<close> calls a handler only below \<^verbatim>\<open>i < len(lines)\<close> (and
  \<^verbatim>\<open>_table\<close> only when a next line exists), so the lines a handler reads at \<open>s\<close> exist.
\<close>

definition esc :: "ustr \<Rightarrow> ustr" where
  "esc t = replace (u ''\"'') (u ''&quot;'') (replace (u ''>'') (u ''&gt;'')
             (replace (u ''<'') (u ''&lt;'') (replace (u ''&'') (u ''&amp;'') t)))"

function code_lines :: "ustr list \<Rightarrow> nat \<Rightarrow> ustr list \<Rightarrow> ustr list \<times> nat" where
  "code_lines lines i out =
     (if i < length lines then
        (if strip (lines ! i) = fence then (out, i + 1)
         else code_lines lines (i + 1) (out @ [esc (lines ! i)]))
      else (out, i))"
  by pat_completeness auto
termination
  by (relation "measure (\<lambda>(lines, i, out). length lines - i)") auto

declare code_lines.simps [simp del]

definition code_block :: "ustr list \<Rightarrow> nat \<Rightarrow> ustr \<times> nat" where
  "code_block lines s =
     (let lang = strip (drop 3 (strip (lines ! s)));
          attr = (if lang \<noteq> [] then u '' class=\"language-'' @ lang @ u ''\"'' else [])
      in case code_lines lines (s + 1) [] of
           (out, i) \<Rightarrow> (u ''<pre><code'' @ attr @ u ''>'' @ join nl out @ u ''</code></pre>'', i))"

function quote_lines :: "ustr list \<Rightarrow> nat \<Rightarrow> ustr list \<Rightarrow> ustr list \<times> nat" where
  "quote_lines lines i ql =
     (if i < length lines \<and> startswith (strip (lines ! i)) (u ''>'')
      then quote_lines lines (i + 1) (ql @ [re_sub quote_re [] (lines ! i)])
      else (ql, i))"
  by pat_completeness auto
termination
  by (relation "measure (\<lambda>(lines, i, ql). length lines - i)") auto

declare quote_lines.simps [simp del]

function ul_items :: "ustr list \<Rightarrow> nat \<Rightarrow> ustr list \<Rightarrow> ustr list \<times> nat" where
  "ul_items lines i items =
     (if i < length lines \<and> re_match ul_re (lines ! i) \<noteq> None
      then ul_items lines (i + 1) (items @ [parse_inline (re_sub ul_re [] (lines ! i))])
      else (items, i))"
  by pat_completeness auto
termination
  by (relation "measure (\<lambda>(lines, i, items). length lines - i)") auto

declare ul_items.simps [simp del]

definition ul :: "ustr list \<Rightarrow> nat \<Rightarrow> ustr \<times> nat" where
  "ul lines s =
     (case ul_items lines s [] of
        (items, i) \<Rightarrow>
          (let li = join nl (map (\<lambda>x. u ''  <li>'' @ x @ u ''</li>'') items)
           in (u ''<ul>'' @ nl @ li @ nl @ u ''</ul>'', i)))"

function ol_items :: "unicode_tables \<Rightarrow> ustr list \<Rightarrow> nat \<Rightarrow> ustr list \<Rightarrow> ustr list \<times> nat" where
  "ol_items U lines i items =
     (if i < length lines \<and> re_match (ol_re U) (lines ! i) \<noteq> None
      then ol_items U lines (i + 1) (items @ [parse_inline (re_sub (ol_re U) [] (lines ! i))])
      else (items, i))"
  by pat_completeness auto
termination
  by (relation "measure (\<lambda>(U, lines, i, items). length lines - i)") auto

declare ol_items.simps [simp del]

definition ol :: "unicode_tables \<Rightarrow> ustr list \<Rightarrow> nat \<Rightarrow> ustr \<times> nat" where
  "ol U lines s =
     (case ol_items U lines s [] of
        (items, i) \<Rightarrow>
          (let li = join nl (map (\<lambda>x. u ''  <li>'' @ x @ u ''</li>'') items)
           in (u ''<ol>'' @ nl @ li @ nl @ u ''</ol>'', i)))"

text \<open>
  The table: \<open>sr\<close> splits a row into its trimmed cells, \<open>al\<close> reads the alignments off the
  delimiter row, \<open>align_at\<close> is \<^verbatim>\<open>aligns[j] if j<len(aligns) else "left"\<close>.
\<close>

definition sr :: "ustr \<Rightarrow> ustr list" where
  "sr l = map strip (split 124 (strip_chars (u ''|'') (strip l)))"

definition al :: "ustr \<Rightarrow> ustr list" where
  "al l = map (\<lambda>c. if startswith (strip c) (u '':'') \<and> endswith (strip c) (u '':'') then u ''center''
                    else if endswith (strip c) (u '':'') then u ''right'' else u ''left'') (sr l)"

definition align_at :: "ustr list \<Rightarrow> nat \<Rightarrow> ustr" where
  "align_at aligns j = (if j < length aligns then aligns ! j else u ''left'')"

definition ths :: "ustr list \<Rightarrow> ustr list \<Rightarrow> ustr" where
  "ths aligns hdr = join nl (map (\<lambda>(j, h). u ''      <th style=\"text-align:'' @ align_at aligns j @
                       u ''\">'' @ parse_inline h @ u ''</th>'') (enumerate 0 hdr))"

definition tds :: "ustr list \<Rightarrow> ustr list \<Rightarrow> ustr" where
  "tds aligns cells = join nl (map (\<lambda>(j, c). u ''      <td style=\"text-align:'' @ align_at aligns j @
                         u ''\">'' @ parse_inline c @ u ''</td>'') (enumerate 0 cells))"

function table_rows :: "ustr list \<Rightarrow> ustr list \<Rightarrow> nat \<Rightarrow> ustr list \<Rightarrow> ustr list \<times> nat" where
  "table_rows lines aligns i rows =
     (if i < length lines \<and> 124 \<in> set (lines ! i) \<and> strip (lines ! i) \<noteq> []
      then table_rows lines aligns (i + 1)
             (rows @ [u ''    <tr>'' @ nl @ tds aligns (sr (lines ! i)) @ nl @ u ''    </tr>''])
      else (rows, i))"
  by pat_completeness auto
termination
  by (relation "measure (\<lambda>(lines, aligns, i, rows). length lines - i)") auto

declare table_rows.simps [simp del]

definition table :: "ustr list \<Rightarrow> nat \<Rightarrow> ustr \<times> nat" where
  "table lines s =
     (let hdr = sr (lines ! s); aligns = al (lines ! (s + 1))
      in case table_rows lines aligns (s + 2) [] of
           (rows, i) \<Rightarrow>
             (u ''<table>'' @ nl @ u ''  <thead>'' @ nl @ u ''    <tr>'' @ nl @ ths aligns hdr @ nl @
              u ''    </tr>'' @ nl @ u ''  </thead>'' @ nl @ u ''  <tbody>'' @ nl @ join nl rows @ nl @
              u ''  </tbody>'' @ nl @ u ''</table>'', i))"

text \<open>The paragraph: the test that ends it, the loop, the handler.\<close>

definition para_break :: "unicode_tables \<Rightarrow> ustr \<Rightarrow> bool" where
  "para_break U l =
     ((startswith (strip l) (u ''#'') \<or> startswith (strip l) (u ''>'') \<or> startswith (strip l) fence) \<or>
      re_match ul_re l \<noteq> None \<or> re_match (ol_re U) l \<noteq> None \<or> re_match hr_re l \<noteq> None)"

function para_lines :: "unicode_tables \<Rightarrow> ustr list \<Rightarrow> nat \<Rightarrow> ustr list \<Rightarrow> ustr list \<times> nat" where
  "para_lines U lines i pl =
     (if i < length lines \<and> strip (lines ! i) \<noteq> [] then
        (if para_break U (lines ! i) then (pl, i)
         else para_lines U lines (i + 1) (pl @ [lines ! i]))
      else (pl, i))"
  by pat_completeness auto
termination
  by (relation "measure (\<lambda>(U, lines, i, pl). length lines - i)") auto

declare para_lines.simps [simp del]

definition para :: "unicode_tables \<Rightarrow> ustr list \<Rightarrow> nat \<Rightarrow> ustr \<times> nat" where
  "para U lines s =
     (case para_lines U lines s [] of
        (pl, i) \<Rightarrow> (u ''<p>'' @ parse_inline (join (u '' '') pl) @ u ''</p>'', i))"

subsection \<open>Headings and slugs\<close>

text \<open>
  The search for a fresh slug is the loop
  \<^verbatim>\<open>while slug in ids: slug = f'{base}-{c}'; c += 1\<close>.  It ends because the candidates
  \<open>base-1\<close>, \<open>base-2\<close>, ... are pairwise different and \<open>ids\<close> is finite.
\<close>

lemma str_nat_not_Nil: "str_nat n \<noteq> []"
  by (subst str_nat.simps) simp

lemma str_nat_inj: "str_nat a = str_nat b \<Longrightarrow> a = b"
proof (induction a arbitrary: b rule: str_nat.induct)
  case (1 a)
  show ?case
  proof (cases "a < 10")
    case True
    show ?thesis
    proof (cases "b < 10")
      case True
      with \<open>a < 10\<close> "1.prems" show ?thesis
        by (simp add: str_nat.simps [of a] str_nat.simps [of b])
    next
      case False
      with \<open>a < 10\<close> "1.prems" str_nat_not_Nil [of "b div 10"] show ?thesis
        by (simp add: str_nat.simps [of a] str_nat.simps [of b] Cons_eq_append_conv)
    qed
  next
    case False
    show ?thesis
    proof (cases "b < 10")
      case True
      with \<open>\<not> a < 10\<close> "1.prems" str_nat_not_Nil [of "a div 10"] show ?thesis
        by (simp add: str_nat.simps [of a] str_nat.simps [of b] append_eq_Cons_conv)
    next
      case False
      with \<open>\<not> a < 10\<close> "1.prems"
      have eq: "str_nat (a div 10) = str_nat (b div 10)" "a mod 10 = b mod 10"
        by (simp_all add: str_nat.simps [of a] str_nat.simps [of b])
      from "1.IH" [OF \<open>\<not> a < 10\<close> eq(1)] have "a div 10 = b div 10" .
      with eq(2) show ?thesis
        by (metis div_mult_mod_eq)
    qed
  qed
qed

lemma finite_candidates: "finite {k. base @ sep @ str_nat k \<in> set ids}"
proof -
  have "inj (\<lambda>k. base @ sep @ str_nat k)"
    by (auto simp: inj_on_def dest: str_nat_inj)
  then have "finite ((\<lambda>k. base @ sep @ str_nat k) -` set ids)"
    by (intro finite_vimageI) simp_all
  then show ?thesis
    by (simp add: vimage_def)
qed

function fresh_slug :: "ustr \<Rightarrow> ustr list \<Rightarrow> ustr \<Rightarrow> nat \<Rightarrow> ustr" where
  "fresh_slug base ids slug c =
     (if slug \<in> set ids then fresh_slug base ids (base @ u ''-'' @ str_nat c) (c + 1) else slug)"
  by pat_completeness auto
termination
proof (relation "measure (\<lambda>(base, ids, slug, c).
         2 * card {k. c \<le> k \<and> base @ u ''-'' @ str_nat k \<in> set ids} +
         (if slug \<in> set ids then 1 else 0))", goal_cases)
  case 1
  show ?case by simp
next
  case (2 base ids slug c)
  let ?A = "{k. c \<le> k \<and> base @ u ''-'' @ str_nat k \<in> set ids}"
  let ?B = "{k. c + 1 \<le> k \<and> base @ u ''-'' @ str_nat k \<in> set ids}"
  have fin: "finite ?B"
    by (rule finite_subset [OF _ finite_candidates [of base "u ''-''" ids]]) auto
  show ?case
  proof (cases "base @ u ''-'' @ str_nat c \<in> set ids")
    case True
    then have "?A = insert c ?B"
      by (auto simp: le_Suc_eq)
    moreover have "c \<notin> ?B"
      by simp
    ultimately have "card ?A = Suc (card ?B)"
      using fin by simp
    with True 2 show ?thesis
      by simp
  next
    case False
    have "?A = ?B"
    proof (rule set_eqI)
      fix k
      show "k \<in> ?A \<longleftrightarrow> k \<in> ?B"
        using False by (cases "k = c") auto
    qed
    with False 2 show ?thesis
      by simp
  qed
qed

declare fresh_slug.simps [simp del]

text \<open>
  The heading branch of \<^verbatim>\<open>parse\<close>, for a line that the heading pattern matched with
  the groups \<open>m\<close>: the level, the raw text, the rendered content, the slug (from the raw
  text, or \<^verbatim>\<open>h-<number of headings so far>\<close> when nothing is left of it), made fresh
  against the slugs recorded so far; the record that is appended holds the raw text.
\<close>

definition heading_block :: "unicode_tables \<Rightarrow> parser \<Rightarrow> (nat \<rightharpoonup> ustr) \<Rightarrow> ustr \<times> parser" where
  "heading_block U self m =
     (let lv = length (group m 1);
          raw = strip (group m 2);
          content = parse_inline raw;
          slug = lower U (re_sub (slug_re U) [] raw);
          slug = (if slug \<noteq> [] then slug else u ''h-'' @ str_nat (length (headings self)));
          base = slug;
          ids = map slug_of (headings self);
          slug = fresh_slug base ids slug 1
      in (u ''<h'' @ str_nat lv @ u '' id=\"'' @ slug @ u ''\">'' @ content @ u ''</h'' @ str_nat lv @
          u ''>'',
          self\<lparr>headings := headings self @ [(lv, slug, raw)]\<rparr>))"

subsection \<open>The block splitter\<close>

text \<open>
  The loop of \<^verbatim>\<open>parse\<close> can run forever, and \<^verbatim>\<open>_blockquote\<close> calls \<^verbatim>\<open>parse\<close>
  again on a new parser object.  The model counts both down from a bound \<open>n\<close>: one unit
  for every round of the loop and for every nested call.  \<open>None\<close> says that the bound was
  too small; a run that returns \<open>None\<close> for every bound does not return.  The nested
  call returns the HTML of the quoted text only: the headings of the inner parser are
  dropped with it.
\<close>

function (sequential) parse_loop :: "unicode_tables \<Rightarrow> nat \<Rightarrow> ustr list \<Rightarrow> nat \<Rightarrow> ustr list \<Rightarrow> parser \<Rightarrow>
                     (ustr list \<times> parser) option"
and blockquote :: "unicode_tables \<Rightarrow> nat \<Rightarrow> ustr list \<Rightarrow> nat \<Rightarrow> (ustr \<times> nat) option"
and parse :: "unicode_tables \<Rightarrow> nat \<Rightarrow> parser \<Rightarrow> ustr \<Rightarrow> (ustr \<times> parser) option"
where
  "parse_loop U 0 lines i html_parts self = None"
| "parse_loop U (Suc n) lines i html_parts self =
     (if \<not> i < length lines then Some (html_parts, self)
      else if strip (lines ! i) = [] then parse_loop U n lines (i + 1) html_parts self
      else if startswith (strip (lines ! i)) fence then
        (case code_block lines i of (h, i') \<Rightarrow> parse_loop U n lines i' (html_parts @ [h]) self)
      else case re_match heading_re (lines ! i) of
        Some m \<Rightarrow>
          (case heading_block U self m of
             (h, self') \<Rightarrow> parse_loop U n lines (i + 1) (html_parts @ [h]) self')
      | None \<Rightarrow>
        if re_match hr_re (lines ! i) \<noteq> None then
          parse_loop U n lines (i + 1) (html_parts @ [u ''<hr>'']) self
        else if startswith (strip (lines ! i)) (u ''>'') then
          (case blockquote U n lines i of
             None \<Rightarrow> None
           | Some (h, i') \<Rightarrow> parse_loop U n lines i' (html_parts @ [h]) self)
        else if re_match ul_re (lines ! i) \<noteq> None then
          (case ul lines i of (h, i') \<Rightarrow> parse_loop U n lines i' (html_parts @ [h]) self)
        else if re_match (ol_re U) (lines ! i) \<noteq> None then
          (case ol U lines i of (h, i') \<Rightarrow> parse_loop U n lines i' (html_parts @ [h]) self)
        else if 124 \<in> set (lines ! i) \<and> i + 1 < length lines \<and>
                re_match delim_re (lines ! (i + 1)) \<noteq> None then
          (case table lines i of (h, i') \<Rightarrow> parse_loop U n lines i' (html_parts @ [h]) self)
        else
          (case para U lines i of (h, i') \<Rightarrow> parse_loop U n lines i' (html_parts @ [h]) self))"
| "blockquote U n lines s =
     (case quote_lines lines s [] of
        (ql, i) \<Rightarrow>
          (case parse U n new_parser (join nl ql) of
             None \<Rightarrow> None
           | Some (inner, inner_parser) \<Rightarrow>
               Some (u ''<blockquote>'' @ nl @ inner @ nl @ u ''</blockquote>'', i)))"
| "parse U n self markdown =
     (let markdown = replace [13] nl (replace [13, 10] nl markdown);
          lines = split 10 markdown
      in case parse_loop U n lines 0 [] (self\<lparr>headings := []\<rparr>) of
           None \<Rightarrow> None
         | Some (html_parts, self') \<Rightarrow> Some (join nl html_parts, self'))"
  by pat_completeness auto
termination
  by (relation "inv_image (less_than <*lex*> less_than)
        (\<lambda>x. case x of
           Inl (U, n, lines, i, html_parts, self) \<Rightarrow> (n, 0::nat)
         | Inr (Inl (U, n, lines, s)) \<Rightarrow> (n, 2)
         | Inr (Inr (U, n, self, markdown)) \<Rightarrow> (n, 1))") auto

declare parse_loop.simps [simp del] blockquote.simps [simp del] parse.simps [simp del]

section \<open>Properties\<close>

subsection \<open>Strings\<close>

lemma replace_unfold:
  "old \<noteq> [] \<Longrightarrow> replace old new s =
     (if s = [] then [] else if startswith s old then new @ replace old new (drop (length old) s)
      else hd s # replace old new (tl s))"
  by (subst replace.simps) simp

lemma set_replace: "old \<noteq> [] \<Longrightarrow> set (replace old new s) \<subseteq> set s \<union> set new"
proof (induction old new s rule: replace.induct)
  case (1 old new s)
  note eq = replace_unfold [OF "1.prems", of new s]
  show ?case
  proof (cases "s = []")
    case True
    with eq show ?thesis by simp
  next
    case False
    show ?thesis
    proof (cases "startswith s old")
      case True
      with 1 False
      have "set (replace old new (drop (length old) s)) \<subseteq> set (drop (length old) s) \<union> set new"
        by simp
      moreover have "set (drop (length old) s) \<subseteq> set s"
        by (rule set_drop_subset)
      ultimately show ?thesis
        using False True eq by auto
    next
      case nsw: False
      with 1 False have "set (replace old new (tl s)) \<subseteq> set (tl s) \<union> set new"
        by simp
      moreover have "set (tl s) \<subseteq> set s" "hd s \<in> set s"
        using False by (auto simp: list.set_sel)
      ultimately show ?thesis
        using False nsw eq by auto
    qed
  qed
qed

lemma length_replace:
  "old \<noteq> [] \<Longrightarrow> length new \<le> length old \<Longrightarrow> length (replace old new s) \<le> length s"
proof (induction old new s rule: replace.induct)
  case (1 old new s)
  note eq = replace_unfold [OF "1.prems"(1), of new s]
  show ?case
  proof (cases "s = []")
    case True
    with eq show ?thesis by simp
  next
    case False
    show ?thesis
    proof (cases "startswith s old")
      case True
      then have "length (take (length old) s) = length old"
        by (simp add: startswith_def)
      then have "length old \<le> length s"
        by simp
      moreover from 1 False True
      have "length (replace old new (drop (length old) s)) \<le> length (drop (length old) s)"
        by simp
      ultimately show ?thesis
        using False True eq "1.prems"(2) by simp
    next
      case nsw: False
      with 1 False have le: "length (replace old new (tl s)) \<le> length (tl s)"
        by simp
      have lt: "length (tl s) < length s"
        using False by (cases s) simp_all
      have "length (replace old new s) = Suc (length (replace old new (tl s)))"
        using False nsw eq by simp
      with le lt show ?thesis
        by linarith
    qed
  qed
qed

lemma set_split_from: "l \<in> set (split_from sep cur s) \<Longrightarrow> set l \<subseteq> set cur \<union> set s"
  by (induction sep cur s arbitrary: l rule: split_from.induct) (auto split: if_splits)

lemma length_split_from: "length (split_from sep cur s) \<le> length s + 1"
  by (induction sep cur s rule: split_from.induct) auto

lemma strip_all_space: "\<forall>c\<in>set l. isspace c \<Longrightarrow> strip l = []"
proof -
  assume "\<forall>c\<in>set l. isspace c"
  then have "dropWhile isspace l = []"
    by (simp add: dropWhile_eq_Nil_conv)
  then show ?thesis
    by (simp only: strip_def rev.simps dropWhile.simps)
qed

subsection \<open>Blank input\<close>

lemma parse_loop_blank:
  "\<forall>l\<in>set lines. strip l = [] \<Longrightarrow> length lines - i = k \<Longrightarrow>
   parse_loop U (Suc k + n) lines i html_parts self = Some (html_parts, self)"
proof (induction k arbitrary: i)
  case 0
  then show ?case by (simp add: parse_loop.simps)
next
  case (Suc k)
  then have lt: "i < length lines" and k: "length lines - (i + 1) = k"
    by auto
  from lt Suc.prems(1) have "strip (lines ! i) = []"
    by simp
  with lt Suc.IH [OF Suc.prems(1) k] show ?case
    by (simp add: parse_loop.simps)
qed

lemma parser_reset: "(self :: parser)\<lparr>headings := []\<rparr> = new_parser"
  by (simp add: new_parser_def)

lemma isspace_nl: "isspace 10"
  by (simp add: isspace_def)

text \<open>
  C9: an input of whitespace characters only (the empty string; blank lines only) has no
  block and no heading.  With a bound of at least the length of the input plus 2,
  \<^verbatim>\<open>parse\<close> returns the empty string and leaves an empty heading list, for which
  \<^verbatim>\<open>generate_toc\<close> returns the empty string.  A line is blank when all its
  characters are whitespace; the line breaks are whitespace themselves.
\<close>

theorem blank_input_empty_output:
  assumes "\<forall>c\<in>set markdown. isspace c"
  shows "parse U (length markdown + 2 + n) self markdown = Some ([], new_parser) \<and>
         fst (generate_toc new_parser) = []"
proof -
  let ?md = "replace [13] nl (replace [13, 10] nl markdown)"
  let ?lines = "split 10 ?md"
  have "set ?md \<subseteq> set markdown \<union> set nl"
    using set_replace [of "[13]" nl "replace [13, 10] nl markdown"]
      set_replace [of "[13, 10]" nl markdown] by auto
  with assms have sp: "\<forall>c\<in>set ?md. isspace c"
    using isspace_nl by (auto simp: nl_def)
  have blank: "\<forall>l\<in>set ?lines. strip l = []"
  proof
    fix l assume "l \<in> set ?lines"
    then have "set l \<subseteq> set ?md"
      using set_split_from [of l 10 "[]" ?md] by (simp add: split_def)
    with sp show "strip l = []"
      by (intro strip_all_space) auto
  qed
  have "length ?md \<le> length markdown"
    using length_replace [of "[13]" nl "replace [13, 10] nl markdown"]
      length_replace [of "[13, 10]" nl markdown] by (simp add: nl_def)
  then have len: "length ?lines \<le> length markdown + 1"
    using length_split_from [of 10 "[]" ?md] by (simp add: split_def)
  define m where "m = length markdown + 1 + n - length ?lines"
  have "length markdown + 2 + n = Suc (length ?lines) + m"
    using len by (simp add: m_def)
  then have "parse_loop U (length markdown + 2 + n) ?lines 0 [] new_parser = Some ([], new_parser)"
    using parse_loop_blank [OF blank, of 0 "length ?lines" U m "[]" new_parser] by simp
  then have "parse U (length markdown + 2 + n) self markdown = Some ([], new_parser)"
    by (simp add: parse.simps Let_def parser_reset)
  moreover have "fst (generate_toc new_parser) = []"
    by (simp add: generate_toc_def new_parser_def)
  ultimately show ?thesis
    by simp
qed

theorem blank_input_empty_output_witness:
  "list_all isspace (u ''  \<newline> '') \<and>
   parse ascii_only 6 new_parser (u ''  \<newline> '') = Some ([], new_parser) \<and>
   fst (generate_toc new_parser) = []"
proof -
  have sp: "\<forall>c\<in>set (u ''  \<newline> ''). isspace c"
    by (simp add: u_def isspace_def)
  have fuel: "length (u ''  \<newline> '') + 2 + 0 = 6"
    by (simp add: u_def)
  from blank_input_empty_output [OF sp, of ascii_only 0 new_parser] sp show ?thesis
    unfolding fuel by (simp add: list_all_iff)
qed

subsection \<open>The table of contents\<close>

text \<open>
  C10: \<^verbatim>\<open>generate_toc\<close> leaves the parser object, and with it the heading list, as
  it was, so a second call returns the same string.
\<close>

theorem generate_toc_frame:
  "snd (generate_toc self) = self \<and>
   fst (generate_toc (snd (generate_toc self))) = fst (generate_toc self)"
  by (simp add: generate_toc_def)

subsection \<open>Inline rules\<close>

lemmas re_defs = ch_def lits_def any_of_def none_of_def dot_def ws_def many_def many1_def maybe_def
  exactly_def lazy1_def re_match_def re_sub_def expand_def group_def

lemma apply_rules_foldl:
  "apply_rules rules text = foldl (\<lambda>s rule. re_sub (fst rule) (snd rule) s) text rules"
  by (induction rules "text" rule: apply_rules.induct) simp_all

lemma inline_bold_italic: "parse_inline (u ''***x***'') = u ''<strong><em>x</em></strong>''"
  by (simp add: parse_inline_def INLINE_RULES_def re_defs u_def sub_from.simps ascii_alnum_def)

lemma inline_underscores: "parse_inline (u ''a_b_c'') = u ''a_b_c''"
  by (simp add: parse_inline_def INLINE_RULES_def re_defs u_def sub_from.simps ascii_alnum_def)

lemma underscore_rule_idle:
  "re_sub (fst (INLINE_RULES ! 8)) (snd (INLINE_RULES ! 8)) (u ''a_b_c'') = u ''a_b_c''"
  by (simp add: INLINE_RULES_def re_defs u_def sub_from.simps ascii_alnum_def)

text \<open>
  C5: \<^verbatim>\<open>parse_inline\<close> applies the ten rules of \<^verbatim>\<open>INLINE_RULES\<close> from the first
  to the last, each to the result of the rule before it.  \<^verbatim>\<open>***x***\<close> becomes
  \<^verbatim>\<open><strong><em>x</em></strong>\<close>, and \<^verbatim>\<open>a_b_c\<close> comes back unchanged: the ninth
  rule, italic with underscores, replaces nothing in it.
\<close>

theorem inline_rules_in_order:
  "length INLINE_RULES = 10 \<and>
   parse_inline text = foldl (\<lambda>s rule. re_sub (fst rule) (snd rule) s) text INLINE_RULES \<and>
   parse_inline (u ''***x***'') = u ''<strong><em>x</em></strong>'' \<and>
   parse_inline (u ''a_b_c'') = u ''a_b_c'' \<and>
   re_sub (fst (INLINE_RULES ! 8)) (snd (INLINE_RULES ! 8)) (u ''a_b_c'') = u ''a_b_c''"
proof -
  have "length INLINE_RULES = 10"
    by (simp add: INLINE_RULES_def)
  moreover have "parse_inline text = foldl (\<lambda>s rule. re_sub (fst rule) (snd rule) s) text INLINE_RULES"
    by (simp only: parse_inline_def apply_rules_foldl)
  ultimately show ?thesis
    using inline_bold_italic inline_underscores underscore_rule_idle by simp
qed

subsection \<open>Fenced code\<close>

lemma replace_single: "replace [c] new s = concat (map (\<lambda>x. if x = c then new else [x]) s)"
proof (induction s)
  case Nil
  show ?case by (simp add: replace_unfold)
next
  case (Cons x xs)
  then show ?case
    by (simp add: replace_unfold [of "[c]" new "x # xs"] startswith_def)
qed

lemma esc_Cons:
  "esc (c # t) =
     (if c = 38 then u ''&amp;'' else if c = 60 then u ''&lt;'' else if c = 62 then u ''&gt;''
      else if c = 34 then u ''&quot;'' else [c]) @ esc t"
  by (simp add: esc_def u_def replace_single)

lemma esc_Nil: "esc [] = []"
  by (simp add: esc_def u_def replace_single)

lemma esc_chars:
  "esc t = concat (map (\<lambda>c. if c = 38 then u ''&amp;'' else if c = 60 then u ''&lt;''
                             else if c = 62 then u ''&gt;'' else if c = 34 then u ''&quot;''
                             else [c]) t)"
  by (induction t) (simp_all only: esc_Nil esc_Cons list.map concat.simps)

lemma code_lines_eq:
  "i \<le> length lines \<Longrightarrow>
   code_lines lines i out =
     (out @ map esc (takeWhile (\<lambda>l. strip l \<noteq> fence) (drop i lines)),
      if length (takeWhile (\<lambda>l. strip l \<noteq> fence) (drop i lines)) < length (drop i lines)
      then i + length (takeWhile (\<lambda>l. strip l \<noteq> fence) (drop i lines)) + 1
      else length lines)"
proof (induction lines i out rule: code_lines.induct)
  case (1 lines i out)
  show ?case
  proof (cases "i < length lines")
    case False
    with "1.prems" have "i = length lines"
      by simp
    then show ?thesis
      by (subst code_lines.simps) simp
  next
    case True
    then have d: "drop i lines = lines ! i # drop (i + 1) lines"
      by (simp add: Cons_nth_drop_Suc)
    show ?thesis
    proof (cases "strip (lines ! i) = fence")
      case True
      with \<open>i < length lines\<close> d show ?thesis
        by (simp add: code_lines.simps [of lines i out])
    next
      case False
      with True "1.IH" have "code_lines lines (i + 1) (out @ [esc (lines ! i)]) =
        ((out @ [esc (lines ! i)]) @ map esc (takeWhile (\<lambda>l. strip l \<noteq> fence) (drop (i + 1) lines)),
         if length (takeWhile (\<lambda>l. strip l \<noteq> fence) (drop (i + 1) lines)) < length (drop (i + 1) lines)
         then i + 1 + length (takeWhile (\<lambda>l. strip l \<noteq> fence) (drop (i + 1) lines)) + 1
         else length lines)"
        by simp
      with True False d show ?thesis
        by (simp add: code_lines.simps [of lines i out])
    qed
  qed
qed

text \<open>
  C6: for a fence at line \<open>s\<close>, \<^verbatim>\<open>_code_block\<close> emits the lines after it up to the first
  line whose trimmed form is three backticks, each with exactly the characters
  \<^verbatim>\<open>&\<close>, \<^verbatim>\<open><\<close>, \<^verbatim>\<open>>\<close> and the double quote replaced by their entities and
  nothing else changed, joined by newlines.  The cursor goes behind the closing line, or
  to the end of the document when no line closes the fence.  The class attribute is there
  exactly when the trimmed text after the three backticks of the opening line is not
  empty.
\<close>

theorem code_block_spec:
  assumes "s < length lines"
  shows "code_block lines s =
     (let lang = strip (drop 3 (strip (lines ! s)));
          rest = drop (s + 1) lines;
          body = takeWhile (\<lambda>l. strip l \<noteq> fence) rest
      in (u ''<pre><code'' @ (if lang = [] then [] else u '' class=\"language-'' @ lang @ u ''\"'') @
          u ''>'' @
          join nl (map (\<lambda>l. concat (map (\<lambda>c. if c = 38 then u ''&amp;'' else if c = 60 then u ''&lt;''
                                               else if c = 62 then u ''&gt;''
                                               else if c = 34 then u ''&quot;'' else [c]) l)) body) @
          u ''</code></pre>'',
          if length body < length rest then s + 1 + length body + 1 else length lines))"
proof -
  from assms have "s + 1 \<le> length lines"
    by simp
  from code_lines_eq [OF this, of "[]"] show ?thesis
    by (simp add: code_block_def Let_def esc_chars [abs_def])
qed

lemma strip_fence_py: "strip (u ''  ```py '') = [96, 96, 96, 112, 121]"
  by (simp add: strip_def u_def isspace_def)

theorem code_block_spec_witness:
  "code_block [u ''```py'', u ''<b>&\"*x*'', u '' ``` '', u ''z''] 0 =
     (u ''<pre><code class=\"language-py\">&lt;b&gt;&amp;&quot;*x*</code></pre>'', 3) \<and>
   code_block [u ''```'', u ''a'', u ''b''] 0 = (u ''<pre><code>a\<newline>b</code></pre>'', 3)"
  using code_block_spec [of 0 "[u ''```py'', u ''<b>&\"*x*'', u '' ``` '', u ''z'']"]
    code_block_spec [of 0 "[u ''```'', u ''a'', u ''b'']"]
  by (simp add: Let_def strip_def u_def isspace_def fence_def nl_def)

subsection \<open>Tables\<close>

lemma dropWhile_idem: "dropWhile P (dropWhile P xs) = dropWhile P xs"
  by (induction xs) auto

lemma last_dropWhile_keep: "dropWhile P xs \<noteq> [] \<Longrightarrow> last (dropWhile P xs) = last xs"
  by (induction xs) (auto split: if_splits)

lemma strip_ends:
  assumes "strip s \<noteq> []"
  shows "\<not> isspace (hd (strip s))" and "\<not> isspace (last (strip s))"
proof -
  let ?a = "dropWhile isspace s"
  let ?b = "dropWhile isspace (rev ?a)"
  from assms have b: "?b \<noteq> []"
    by (simp add: strip_def)
  then have a: "?a \<noteq> []"
    by (auto simp del: dropWhile_eq_Nil_conv)
  have "hd (strip s) = last ?b"
    using b by (simp add: strip_def hd_rev)
  also have "\<dots> = last (rev ?a)"
    using b by (rule last_dropWhile_keep)
  also have "\<dots> = hd ?a"
    using a by (simp add: last_rev)
  finally show "\<not> isspace (hd (strip s))"
    using a hd_dropWhile [of isspace s] by simp
  have "last (strip s) = hd ?b"
    using b by (simp add: strip_def last_rev)
  then show "\<not> isspace (last (strip s))"
    using b hd_dropWhile [of isspace "rev ?a"] by simp
qed

lemma dropWhile_hd_id: "xs \<noteq> [] \<Longrightarrow> \<not> P (hd xs) \<Longrightarrow> dropWhile P xs = xs"
  by (cases xs) auto

lemma strip_strip: "strip (strip s) = strip s"
proof (cases "strip s = []")
  case True
  then show ?thesis
    by (simp add: strip_def [of "[]"])
next
  case False
  from strip_ends [OF False] False
  have 1: "dropWhile isspace (strip s) = strip s"
    by (simp add: dropWhile_hd_id)
  from strip_ends [OF False] False
  have 2: "dropWhile isspace (rev (strip s)) = rev (strip s)"
    by (simp add: dropWhile_hd_id hd_rev)
  show ?thesis
    by (subst (1) strip_def) (simp only: 1 2 rev_rev_ident)
qed

lemma startswith_single: "startswith c [x] \<longleftrightarrow> c \<noteq> [] \<and> hd c = x"
  by (cases c) (auto simp: startswith_def)

lemma endswith_single: "endswith c [x] \<longleftrightarrow> c \<noteq> [] \<and> last c = x"
proof (cases c rule: rev_cases)
  case Nil
  then show ?thesis by (simp add: endswith_def)
next
  case (snoc ys y)
  then show ?thesis by (simp add: endswith_def)
qed

lemma strip_Nil: "strip [] = []"
  by (simp add: strip_def)

lemma sr_strip: "j < length (sr l) \<Longrightarrow> strip (sr l ! j) = sr l ! j"
  by (simp add: sr_def strip_strip)

lemma al_nth:
  assumes "j < length (sr l)"
  shows "al l ! j =
     (if sr l ! j \<noteq> [] \<and> hd (sr l ! j) = 58 \<and> last (sr l ! j) = 58 then u ''center''
      else if sr l ! j \<noteq> [] \<and> last (sr l ! j) = 58 then u ''right'' else u ''left'')"
proof -
  have colon: "u '':'' = [58]"
    by (simp add: u_def)
  from assms show ?thesis
    by (simp add: al_def sr_strip strip_Nil colon startswith_single endswith_single)
qed

lemma map_enumerate:
  "map (\<lambda>(j, c). f j c) (enumerate 0 cells) = map (\<lambda>j. f j (cells ! j)) [0..<length cells]"
  by (rule nth_equalityI) (simp_all add: nth_enumerate_eq)

lemma table_rows_eq:
  "i \<le> length lines \<Longrightarrow>
   table_rows lines aligns i rows =
     (rows @ map (\<lambda>l. u ''    <tr>'' @ nl @ tds aligns (sr l) @ nl @ u ''    </tr>'')
               (takeWhile (\<lambda>l. 124 \<in> set l \<and> strip l \<noteq> []) (drop i lines)),
      i + length (takeWhile (\<lambda>l. 124 \<in> set l \<and> strip l \<noteq> []) (drop i lines)))"
proof (induction lines aligns i rows rule: table_rows.induct)
  case (1 lines aligns i rows)
  show ?case
  proof (cases "i < length lines")
    case False
    with "1.prems" have "i = length lines"
      by simp
    then show ?thesis
      by (subst table_rows.simps) simp
  next
    case True
    then have d: "drop i lines = lines ! i # drop (i + 1) lines"
      by (simp add: Cons_nth_drop_Suc)
    show ?thesis
    proof (cases "124 \<in> set (lines ! i) \<and> strip (lines ! i) \<noteq> []")
      case False
      with True d show ?thesis
        by (subst table_rows.simps) auto
    next
      case row: True
      with True "1.IH" [of]
      have "table_rows lines aligns (i + 1)
              (rows @ [u ''    <tr>'' @ nl @ tds aligns (sr (lines ! i)) @ nl @ u ''    </tr>'']) =
        ((rows @ [u ''    <tr>'' @ nl @ tds aligns (sr (lines ! i)) @ nl @ u ''    </tr>'']) @
           map (\<lambda>l. u ''    <tr>'' @ nl @ tds aligns (sr l) @ nl @ u ''    </tr>'')
             (takeWhile (\<lambda>l. 124 \<in> set l \<and> strip l \<noteq> []) (drop (i + 1) lines)),
         i + 1 + length (takeWhile (\<lambda>l. 124 \<in> set l \<and> strip l \<noteq> []) (drop (i + 1) lines)))"
        by simp
      with True row d show ?thesis
        by (subst table_rows.simps) simp
    qed
  qed
qed

lemma al_example: "al (u ''|:--|:-:|--:|'') = [u ''left'', u ''center'', u ''right'']"
  by (simp add: al_def sr_def strip_def strip_chars_def split_def isspace_def startswith_def
      endswith_def u_def)

text \<open>
  C7: the alignment list has one entry per cell of the delimiter row: \<open>center\<close> for a
  cell that starts and ends with a colon, \<open>right\<close> for a cell that only ends with one,
  \<open>left\<close> for any other; the delimiter row \<^verbatim>\<open>|:--|:-:|--:|\<close> gives left, center,
  right.  A header or body row emits one \<^verbatim>\<open>th\<close> or \<^verbatim>\<open>td\<close> per cell it has, the
  cell at position \<open>j\<close> with the alignment at \<open>j\<close>, or \<open>left\<close> when the alignment list
  is shorter.  The handler puts the header row and the body rows (the lines after the
  delimiter row that hold a bar and are not blank) together in this way.
\<close>

theorem table_alignment:
  "length (al l) = length (sr l) \<and>
   (\<forall>j<length (sr l). al l ! j =
      (if sr l ! j \<noteq> [] \<and> hd (sr l ! j) = 58 \<and> last (sr l ! j) = 58 then u ''center''
       else if sr l ! j \<noteq> [] \<and> last (sr l ! j) = 58 then u ''right'' else u ''left'')) \<and>
   al (u ''|:--|:-:|--:|'') = [u ''left'', u ''center'', u ''right''] \<and>
   ths aligns hdr =
     join nl (map (\<lambda>j. u ''      <th style=\"text-align:'' @
                        (if j < length aligns then aligns ! j else u ''left'') @ u ''\">'' @
                        parse_inline (hdr ! j) @ u ''</th>'') [0..<length hdr]) \<and>
   tds aligns cells =
     join nl (map (\<lambda>j. u ''      <td style=\"text-align:'' @
                        (if j < length aligns then aligns ! j else u ''left'') @ u ''\">'' @
                        parse_inline (cells ! j) @ u ''</td>'') [0..<length cells]) \<and>
   (s + 1 < length lines \<longrightarrow>
    table lines s =
      (u ''<table>'' @ nl @ u ''  <thead>'' @ nl @ u ''    <tr>'' @ nl @
       ths (al (lines ! (s + 1))) (sr (lines ! s)) @ nl @
       u ''    </tr>'' @ nl @ u ''  </thead>'' @ nl @ u ''  <tbody>'' @ nl @
       join nl (map (\<lambda>l. u ''    <tr>'' @ nl @ tds (al (lines ! (s + 1))) (sr l) @ nl @ u ''    </tr>'')
                  (takeWhile (\<lambda>l. 124 \<in> set l \<and> strip l \<noteq> []) (drop (s + 2) lines))) @ nl @
       u ''  </tbody>'' @ nl @ u ''</table>'',
       s + 2 + length (takeWhile (\<lambda>l. 124 \<in> set l \<and> strip l \<noteq> []) (drop (s + 2) lines))))"
proof (intro conjI allI impI)
  show "length (al l) = length (sr l)"
    by (simp add: al_def)
next
  fix j assume "j < length (sr l)"
  then show "al l ! j =
      (if sr l ! j \<noteq> [] \<and> hd (sr l ! j) = 58 \<and> last (sr l ! j) = 58 then u ''center''
       else if sr l ! j \<noteq> [] \<and> last (sr l ! j) = 58 then u ''right'' else u ''left'')"
    by (rule al_nth)
next
  show "al (u ''|:--|:-:|--:|'') = [u ''left'', u ''center'', u ''right'']"
    by (rule al_example)
next
  show "ths aligns hdr =
     join nl (map (\<lambda>j. u ''      <th style=\"text-align:'' @
                        (if j < length aligns then aligns ! j else u ''left'') @ u ''\">'' @
                        parse_inline (hdr ! j) @ u ''</th>'') [0..<length hdr])"
    by (simp only: ths_def align_at_def map_enumerate)
next
  show "tds aligns cells =
     join nl (map (\<lambda>j. u ''      <td style=\"text-align:'' @
                        (if j < length aligns then aligns ! j else u ''left'') @ u ''\">'' @
                        parse_inline (cells ! j) @ u ''</td>'') [0..<length cells])"
    by (simp only: tds_def align_at_def map_enumerate)
next
  assume "s + 1 < length lines"
  then have "s + 2 \<le> length lines"
    by simp
  from table_rows_eq [OF this, of "al (lines ! (s + 1))" "[]"]
  show "table lines s =
      (u ''<table>'' @ nl @ u ''  <thead>'' @ nl @ u ''    <tr>'' @ nl @
       ths (al (lines ! (s + 1))) (sr (lines ! s)) @ nl @
       u ''    </tr>'' @ nl @ u ''  </thead>'' @ nl @ u ''  <tbody>'' @ nl @
       join nl (map (\<lambda>l. u ''    <tr>'' @ nl @ tds (al (lines ! (s + 1))) (sr l) @ nl @ u ''    </tr>'')
                  (takeWhile (\<lambda>l. 124 \<in> set l \<and> strip l \<noteq> []) (drop (s + 2) lines))) @ nl @
       u ''  </tbody>'' @ nl @ u ''</table>'',
       s + 2 + length (takeWhile (\<lambda>l. 124 \<in> set l \<and> strip l \<noteq> []) (drop (s + 2) lines)))"
    by (simp add: table_def Let_def)
qed

lemma inline_plain:
  "parse_inline (u ''A'') = u ''A''" "parse_inline (u ''B'') = u ''B''"
  "parse_inline (u ''C'') = u ''C''" "parse_inline (u ''1'') = u ''1''"
  "parse_inline (u ''2'') = u ''2''" "parse_inline (u ''3'') = u ''3''"
  "parse_inline (u ''4'') = u ''4''"
  by (simp_all add: parse_inline_def INLINE_RULES_def re_defs u_def sub_from.simps ascii_alnum_def)

lemma table_example_rows:
  "sr (u ''|A|B|C|'') = [u ''A'', u ''B'', u ''C'']"
  "sr (u ''| 1 |'') = [u ''1'']"
  "sr (u ''1|2|3|4'') = [u ''1'', u ''2'', u ''3'', u ''4'']"
  by (simp_all add: sr_def strip_def strip_chars_def split_def isspace_def u_def)

theorem table_alignment_witness:
  "table [u ''|A|B|C|'', u ''|:--|:-:|--:|'', u ''| 1 |'', u ''1|2|3|4'', u ''end''] 0 =
     (u (''<table>\<newline>  <thead>\<newline>    <tr>\<newline>'' @
         ''      <th style=\"text-align:left\">A</th>\<newline>'' @
         ''      <th style=\"text-align:center\">B</th>\<newline>'' @
         ''      <th style=\"text-align:right\">C</th>\<newline>'' @
         ''    </tr>\<newline>  </thead>\<newline>  <tbody>\<newline>'' @
         ''    <tr>\<newline>      <td style=\"text-align:left\">1</td>\<newline>    </tr>\<newline>'' @
         ''    <tr>\<newline>      <td style=\"text-align:left\">1</td>\<newline>'' @
         ''      <td style=\"text-align:center\">2</td>\<newline>'' @
         ''      <td style=\"text-align:right\">3</td>\<newline>'' @
         ''      <td style=\"text-align:left\">4</td>\<newline>    </tr>\<newline>'' @
         ''  </tbody>\<newline></table>''), 4)"
proof -
  let ?lines = "[u ''|A|B|C|'', u ''|:--|:-:|--:|'', u ''| 1 |'', u ''1|2|3|4'', u ''end'']"
  have body: "takeWhile (\<lambda>l. 124 \<in> set l \<and> strip l \<noteq> []) (drop (0 + 2) ?lines) =
                [u ''| 1 |'', u ''1|2|3|4'']"
    by (simp add: u_def strip_def isspace_def)
  note t = table_alignment [of "u ''|:--|:-:|--:|''" "[u ''left'', u ''center'', u ''right'']" _ _ 0 ?lines]
  from t have "table ?lines 0 = (u ''<table>'' @ nl @ u ''  <thead>'' @ nl @ u ''    <tr>'' @ nl @
       ths (al (?lines ! (0 + 1))) (sr (?lines ! 0)) @ nl @
       u ''    </tr>'' @ nl @ u ''  </thead>'' @ nl @ u ''  <tbody>'' @ nl @
       join nl (map (\<lambda>l. u ''    <tr>'' @ nl @ tds (al (?lines ! (0 + 1))) (sr l) @ nl @ u ''    </tr>'')
                  (takeWhile (\<lambda>l. 124 \<in> set l \<and> strip l \<noteq> []) (drop (0 + 2) ?lines))) @ nl @
       u ''  </tbody>'' @ nl @ u ''</table>'',
       0 + 2 + length (takeWhile (\<lambda>l. 124 \<in> set l \<and> strip l \<noteq> []) (drop (0 + 2) ?lines)))"
    by simp
  then show ?thesis
    unfolding body
    by (simp add: al_example table_example_rows ths_def tds_def align_at_def enumerate_eq_zip
        inline_plain nl_def)
      (simp add: u_def)
qed

subsection \<open>The loop of the block splitter\<close>

lemma parse_loop_step:
  assumes "parse_loop U (Suc n) lines i html_parts self = Some r"
  shows "(\<not> i < length lines \<and> r = (html_parts, self)) \<or>
         (i < length lines \<and> strip (lines ! i) \<noteq> [] \<and> \<not> startswith (strip (lines ! i)) fence \<and>
          (\<exists>m. re_match heading_re (lines ! i) = Some m \<and>
            parse_loop U n lines (i + 1) (html_parts @ [fst (heading_block U self m)])
              (snd (heading_block U self m)) = Some r)) \<or>
         (i < length lines \<and> (\<exists>i' html_parts'. parse_loop U n lines i' html_parts' self = Some r))"
  using assms
  by (simp add: parse_loop.simps split: if_splits option.splits prod.splits) blast+

lemma parse_loop_invariant:
  assumes "parse_loop U n lines i html_parts self = Some (html_parts', self')"
    and "P self"
    and step: "\<And>j p m. j < length lines \<Longrightarrow> strip (lines ! j) \<noteq> [] \<Longrightarrow>
               \<not> startswith (strip (lines ! j)) fence \<Longrightarrow>
               re_match heading_re (lines ! j) = Some m \<Longrightarrow> P p \<Longrightarrow>
               P (snd (heading_block U p m))"
  shows "P self'"
  using assms(1,2)
proof (induction n arbitrary: i html_parts self)
  case 0
  then show ?case by (simp add: parse_loop.simps)
next
  case (Suc n)
  from parse_loop_step [OF Suc.prems(1)] show ?case
  proof (elim disjE conjE exE)
    assume "(html_parts', self') = (html_parts, self)"
    with Suc.prems(2) show ?thesis by simp
  next
    fix m
    assume "i < length lines" "strip (lines ! i) \<noteq> []" "\<not> startswith (strip (lines ! i)) fence"
      "re_match heading_re (lines ! i) = Some m"
      and run: "parse_loop U n lines (i + 1) (html_parts @ [fst (heading_block U self m)])
              (snd (heading_block U self m)) = Some (html_parts', self')"
    then have "P (snd (heading_block U self m))"
      using Suc.prems(2) by (intro step)
    with run show ?thesis
      by (rule Suc.IH)
  next
    fix i' parts
    assume "parse_loop U n lines i' parts self = Some (html_parts', self')"
    then show ?thesis
      using Suc.prems(2) by (rule Suc.IH)
  qed
qed


subsection \<open>Slugs\<close>

lemma replace_absent:
  "old \<noteq> [] \<Longrightarrow> hd old \<notin> set s \<Longrightarrow> replace old new s = s"
proof (induction s)
  case Nil
  then show ?case by (simp add: replace_unfold)
next
  case (Cons x xs)
  from Cons.prems have "\<not> startswith (x # xs) old"
    by (cases old) (auto simp: startswith_def)
  with Cons show ?case
    by (simp add: replace_unfold [of old new "x # xs"])
qed

lemma normalize_no_cr: "13 \<notin> set s \<Longrightarrow> replace [13] nl (replace [13, 10] nl s) = s"
  by (simp add: replace_absent)

lemma fresh_slug_fresh: "fresh_slug base ids slug c \<notin> set ids"
  by (induction base ids slug c rule: fresh_slug.induct) (subst fresh_slug.simps, simp)

lemma sub_from_class: "sub_from (Cls P) [] b a = filter (\<lambda>c. \<not> P c) a"
proof (induction a arbitrary: b)
  case Nil
  show ?case by (subst sub_from.simps) simp
next
  case (Cons x xs)
  show ?case by (subst sub_from.simps) (simp add: Cons expand_def)
qed

lemma slug_chars: "re_sub (slug_re U) [] raw = filter (\<lambda>c. isword U c \<or> cjk c \<or> c = 45) raw"
  by (simp add: re_sub_def slug_re_def sub_from_class)

lemma fresh_slug_search:
  "\<exists>k. fresh_slug base ids slug c = (case k of 0 \<Rightarrow> slug | Suc j \<Rightarrow> base @ u ''-'' @ str_nat (c + j)) \<and>
       (\<forall>j<k. (case j of 0 \<Rightarrow> slug | Suc i \<Rightarrow> base @ u ''-'' @ str_nat (c + i)) \<in> set ids)"
proof (induction base ids slug c rule: fresh_slug.induct)
  case (1 base ids slug c)
  show ?case
  proof (cases "slug \<in> set ids")
    case False
    then have "fresh_slug base ids slug c = slug"
      by (subst fresh_slug.simps) simp
    then show ?thesis
      by (intro exI [of _ 0]) simp
  next
    case True
    from "1.IH" [OF True] obtain k where
      k: "fresh_slug base ids (base @ u ''-'' @ str_nat c) (c + 1) =
            (case k of 0 \<Rightarrow> base @ u ''-'' @ str_nat c | Suc j \<Rightarrow> base @ u ''-'' @ str_nat (c + 1 + j))"
      and below: "\<forall>j<k. (case j of 0 \<Rightarrow> base @ u ''-'' @ str_nat c
                            | Suc i \<Rightarrow> base @ u ''-'' @ str_nat (c + 1 + i)) \<in> set ids"
      by blast
    have eq: "fresh_slug base ids slug c = fresh_slug base ids (base @ u ''-'' @ str_nat c) (c + 1)"
      using True by (subst fresh_slug.simps) simp
    show ?thesis
    proof (intro exI [of _ "Suc k"] conjI allI impI)
      show "fresh_slug base ids slug c =
              (case Suc k of 0 \<Rightarrow> slug | Suc j \<Rightarrow> base @ u ''-'' @ str_nat (c + j))"
        using k eq by (cases k) simp_all
    next
      fix j assume "j < Suc k"
      show "(case j of 0 \<Rightarrow> slug | Suc i \<Rightarrow> base @ u ''-'' @ str_nat (c + i)) \<in> set ids"
      proof (cases j)
        case 0
        with True show ?thesis by simp
      next
        case (Suc i)
        with \<open>j < Suc k\<close> have "i < k" by simp
        with below have "(case i of 0 \<Rightarrow> base @ u ''-'' @ str_nat c
                            | Suc i' \<Rightarrow> base @ u ''-'' @ str_nat (c + 1 + i')) \<in> set ids"
          by blast
        with Suc show ?thesis
          by (cases i) simp_all
      qed
    qed
  qed
qed

text \<open>
  The candidates of the search in the words of the claim: the base slug itself, then the
  base with the suffixes \<open>-1\<close>, \<open>-2\<close>, ...
\<close>

definition candidate :: "ustr \<Rightarrow> nat \<Rightarrow> ustr" where
  "candidate base k = (if k = 0 then base else base @ u ''-'' @ str_nat k)"

lemma fresh_slug_candidate:
  "\<exists>k. fresh_slug base ids base 1 = candidate base k \<and> candidate base k \<notin> set ids \<and>
       (\<forall>j<k. candidate base j \<in> set ids)"
proof -
  from fresh_slug_search [of base ids base 1] obtain k where
    k: "fresh_slug base ids base 1 = (case k of 0 \<Rightarrow> base | Suc j \<Rightarrow> base @ u ''-'' @ str_nat (1 + j))"
    and below: "\<forall>j<k. (case j of 0 \<Rightarrow> base | Suc i \<Rightarrow> base @ u ''-'' @ str_nat (1 + i)) \<in> set ids"
    by blast
  have cand: "candidate base j = (case j of 0 \<Rightarrow> base | Suc i \<Rightarrow> base @ u ''-'' @ str_nat (1 + i))" for j
    by (cases j) (simp_all add: candidate_def)
  from k have "fresh_slug base ids base 1 = candidate base k"
    by (simp only: cand)
  moreover from this have "candidate base k \<notin> set ids"
    using fresh_slug_fresh [of base ids base 1] by simp
  moreover from below have "\<forall>j<k. candidate base j \<in> set ids"
    by (simp only: cand)
  ultimately show ?thesis
    by blast
qed

lemma heading_block_record:
  "\<exists>k. snd (heading_block U self m) =
         self\<lparr>headings := headings self @
           [(length (group m 1),
             candidate (if lower U (filter (\<lambda>c. isword U c \<or> cjk c \<or> c = 45) (strip (group m 2))) \<noteq> []
                        then lower U (filter (\<lambda>c. isword U c \<or> cjk c \<or> c = 45) (strip (group m 2)))
                        else u ''h-'' @ str_nat (length (headings self))) k,
             strip (group m 2))]\<rparr> \<and>
       candidate (if lower U (filter (\<lambda>c. isword U c \<or> cjk c \<or> c = 45) (strip (group m 2))) \<noteq> []
                  then lower U (filter (\<lambda>c. isword U c \<or> cjk c \<or> c = 45) (strip (group m 2)))
                  else u ''h-'' @ str_nat (length (headings self))) k
         \<notin> set (map slug_of (headings self)) \<and>
       (\<forall>j<k. candidate (if lower U (filter (\<lambda>c. isword U c \<or> cjk c \<or> c = 45) (strip (group m 2))) \<noteq> []
                  then lower U (filter (\<lambda>c. isword U c \<or> cjk c \<or> c = 45) (strip (group m 2)))
                  else u ''h-'' @ str_nat (length (headings self))) j
         \<in> set (map slug_of (headings self)))"
proof -
  let ?base = "if lower U (filter (\<lambda>c. isword U c \<or> cjk c \<or> c = 45) (strip (group m 2))) \<noteq> []
               then lower U (filter (\<lambda>c. isword U c \<or> cjk c \<or> c = 45) (strip (group m 2)))
               else u ''h-'' @ str_nat (length (headings self))"
  from fresh_slug_candidate [of ?base "map slug_of (headings self)"] obtain k where
    k: "fresh_slug ?base (map slug_of (headings self)) ?base 1 = candidate ?base k"
      "candidate ?base k \<notin> set (map slug_of (headings self))"
      "\<forall>j<k. candidate ?base j \<in> set (map slug_of (headings self))"
    by blast
  have "snd (heading_block U self m) =
          self\<lparr>headings := headings self @
            [(length (group m 1), fresh_slug ?base (map slug_of (headings self)) ?base 1,
              strip (group m 2))]\<rparr>"
    by (simp add: heading_block_def Let_def slug_chars)
  with k show ?thesis
    by (intro exI [of _ k]) simp
qed

lemma heading_block_distinct:
  assumes "distinct (map slug_of (headings self))"
  shows "distinct (map slug_of (headings (snd (heading_block U self m))))"
proof -
  from heading_block_record [of U self m] obtain k s where
    "headings (snd (heading_block U self m)) = headings self @ [(length (group m 1), s, strip (group m 2))]"
    "s \<notin> set (map slug_of (headings self))"
    by (metis (no_types, lifting) parser.select_convs(1) parser.surjective parser.update_convs(1))
  with assms show ?thesis
    by (simp add: slug_of_def)
qed

lemma parse_distinct:
  assumes "parse U n self markdown = Some (html, self')"
  shows "distinct (map slug_of (headings self'))"
proof -
  let ?lines = "split 10 (replace [13] nl (replace [13, 10] nl markdown))"
  from assms obtain parts where
    "parse_loop U n ?lines 0 [] (self\<lparr>headings := []\<rparr>) = Some (parts, self')"
    by (auto simp: parse.simps Let_def split: option.splits)
  then show ?thesis
    by (rule parse_loop_invariant [where P = "\<lambda>p. distinct (map slug_of (headings p))"])
      (simp_all add: heading_block_distinct)
qed

lemmas inline_defs = parse_inline_def INLINE_RULES_def re_defs u_def sub_from.simps ascii_alnum_def

lemmas slug_defs = heading_block_def Let_def group_def slug_chars fresh_slug.simps str_nat.simps
  slug_of_def u_def lower_def cjk_def isword_def ascii_lower_def

lemma yin_lines:
  "split 10 (replace [13] nl (replace [13, 10] nl
     (u ''# '' @ [24341, 35328] @ nl @ u ''# '' @ [24341, 35328]))) =
   [[35, 32, 24341, 35328], [35, 32, 24341, 35328]]"
  by (simp add: replace_absent split_def u_def nl_def)

lemma yin_strip:
  "strip [35, 32, 24341, 35328] = [35, 32, 24341, 35328]" "strip [24341, 35328] = [24341, 35328]"
  by (simp_all add: strip_def isspace_def)

lemma yin_match:
  "re_match heading_re [35, 32, 24341, 35328] = Some [1 \<mapsto> [35], 2 \<mapsto> [24341, 35328]]"
  by (simp add: re_defs heading_re_def isspace_def)

lemma yin_inline: "parse_inline [24341, 35328] = [24341, 35328]"
  by (simp add: inline_defs)

lemma yin_first:
  "p = \<lparr>headings = []\<rparr> \<Longrightarrow> m = [1 \<mapsto> [35], 2 \<mapsto> [24341, 35328]] \<Longrightarrow>
   heading_block U p m =
     (u ''<h1 id=\"'' @ [24341, 35328] @ u ''\">'' @ [24341, 35328] @ u ''</h1>'',
      \<lparr>headings = [(1, [24341, 35328], [24341, 35328])]\<rparr>)"
  by (simp add: slug_defs yin_strip yin_inline)

lemma yin_second:
  "p = \<lparr>headings = [(1, [24341, 35328], [24341, 35328])]\<rparr> \<Longrightarrow>
   m = [1 \<mapsto> [35], 2 \<mapsto> [24341, 35328]] \<Longrightarrow>
   heading_block U p m =
     (u ''<h1 id=\"'' @ [24341, 35328] @ u ''-1\">'' @ [24341, 35328] @ u ''</h1>'',
      \<lparr>headings = [(1, [24341, 35328], [24341, 35328]),
                   (1, [24341, 35328] @ u ''-1'', [24341, 35328])]\<rparr>)"
  by (simp add: slug_defs yin_strip yin_inline)

lemma parser_reset_eq: "(self :: parser)\<lparr>headings := hs\<rparr> = \<lparr>headings = hs\<rparr>"
  by simp

lemma repeated_heading_run:
  "parse U (Suc (Suc (Suc n))) self (u ''# '' @ [24341, 35328] @ nl @ u ''# '' @ [24341, 35328]) =
     Some (u ''<h1 id=\"'' @ [24341, 35328] @ u ''\">'' @ [24341, 35328] @ u ''</h1>'' @ nl @
           u ''<h1 id=\"'' @ [24341, 35328] @ u ''-1\">'' @ [24341, 35328] @ u ''</h1>'',
           \<lparr>headings = [(1, [24341, 35328], [24341, 35328]),
                        (1, [24341, 35328] @ u ''-1'', [24341, 35328])]\<rparr>)"
proof -
  let ?lines = "[[35, 32, 24341, 35328], [35, 32, 24341, 35328 :: nat]]"
  have "parse_loop U (Suc (Suc (Suc n))) ?lines 0 [] \<lparr>headings = []\<rparr> =
          Some ([u ''<h1 id=\"'' @ [24341, 35328] @ u ''\">'' @ [24341, 35328] @ u ''</h1>'',
                 u ''<h1 id=\"'' @ [24341, 35328] @ u ''-1\">'' @ [24341, 35328] @ u ''</h1>''],
                \<lparr>headings = [(1, [24341, 35328], [24341, 35328]),
                             (1, [24341, 35328] @ u ''-1'', [24341, 35328])]\<rparr>)"
    by (simp add: parse_loop.simps yin_strip yin_match yin_first yin_second startswith_def fence_def)
  then show ?thesis
    by (simp only: parse.simps Let_def yin_lines parser_reset_eq) (simp add: nl_def)
qed

text \<open>
  C3: the slugs in the heading list of a parse that returns are pairwise different.  The
  heading branch derives the base slug from the raw heading text by keeping the word
  characters, the ideographs U+4E00..U+9FFF and the hyphen, and lowercasing (a base that
  comes out empty is replaced by \<open>h-\<close> and the number of headings so far); it records the
  first of the candidates base, base\<open>-1\<close>, base\<open>-2\<close>, ... that no earlier heading has.
  Two headings with the text U+5F15 U+8A00 get the slugs U+5F15 U+8A00 and
  U+5F15 U+8A00 \<open>-1\<close>.
\<close>

theorem slugs_unique:
  "(parse U n self markdown = Some (html, self') \<longrightarrow> distinct (map slug_of (headings self'))) \<and>
   (\<exists>k. snd (heading_block U p m) =
          p\<lparr>headings := headings p @
            [(length (group m 1),
              candidate (if lower U (filter (\<lambda>c. isword U c \<or> cjk c \<or> c = 45) (strip (group m 2))) \<noteq> []
                         then lower U (filter (\<lambda>c. isword U c \<or> cjk c \<or> c = 45) (strip (group m 2)))
                         else u ''h-'' @ str_nat (length (headings p))) k,
              strip (group m 2))]\<rparr> \<and>
        candidate (if lower U (filter (\<lambda>c. isword U c \<or> cjk c \<or> c = 45) (strip (group m 2))) \<noteq> []
                   then lower U (filter (\<lambda>c. isword U c \<or> cjk c \<or> c = 45) (strip (group m 2)))
                   else u ''h-'' @ str_nat (length (headings p))) k
          \<notin> set (map slug_of (headings p)) \<and>
        (\<forall>j<k. candidate (if lower U (filter (\<lambda>c. isword U c \<or> cjk c \<or> c = 45) (strip (group m 2))) \<noteq> []
                   then lower U (filter (\<lambda>c. isword U c \<or> cjk c \<or> c = 45) (strip (group m 2)))
                   else u ''h-'' @ str_nat (length (headings p))) j
          \<in> set (map slug_of (headings p)))) \<and>
   parse U (3 + d) q (u ''# '' @ [24341, 35328] @ nl @ u ''# '' @ [24341, 35328]) =
     Some (u ''<h1 id=\"'' @ [24341, 35328] @ u ''\">'' @ [24341, 35328] @ u ''</h1>'' @ nl @
           u ''<h1 id=\"'' @ [24341, 35328] @ u ''-1\">'' @ [24341, 35328] @ u ''</h1>'',
           \<lparr>headings = [(1, [24341, 35328], [24341, 35328]),
                        (1, [24341, 35328] @ u ''-1'', [24341, 35328])]\<rparr>)"
proof -
  have fuel: "3 + d = Suc (Suc (Suc d))"
    by simp
  show ?thesis
    unfolding fuel
    using parse_distinct [of U n self markdown html self'] heading_block_record [of U p m]
      repeated_heading_run [of U d q]
    by blast
qed

theorem slugs_unique_witness:
  "parse ascii_only 3 new_parser (u ''# '' @ [24341, 35328] @ nl @ u ''# '' @ [24341, 35328]) =
     Some (u ''<h1 id=\"'' @ [24341, 35328] @ u ''\">'' @ [24341, 35328] @ u ''</h1>'' @ nl @
           u ''<h1 id=\"'' @ [24341, 35328] @ u ''-1\">'' @ [24341, 35328] @ u ''</h1>'',
           \<lparr>headings = [(1, [24341, 35328], [24341, 35328]),
                        (1, [24341, 35328] @ u ''-1'', [24341, 35328])]\<rparr>) \<and>
   distinct (map slug_of [(1, [24341, 35328], [24341, 35328]),
                          (1 :: nat, [24341, 35328] @ u ''-1'', [24341, 35328])])"
proof -
  let ?doc = "u ''# '' @ [24341, 35328] @ nl @ u ''# '' @ [24341, 35328]"
  let ?html = "u ''<h1 id=\"'' @ [24341, 35328] @ u ''\">'' @ [24341, 35328] @ u ''</h1>'' @ nl @
           u ''<h1 id=\"'' @ [24341, 35328] @ u ''-1\">'' @ [24341, 35328] @ u ''</h1>''"
  let ?p = "\<lparr>headings = [(1, [24341, 35328], [24341, 35328]),
                        (1, [24341, 35328] @ u ''-1'', [24341, 35328])]\<rparr>"
  note t = slugs_unique [where U = ascii_only and n = 3 and self = new_parser and markdown = ?doc
      and html = ?html and self' = ?p and d = 0 and q = new_parser]
  from t have run: "parse ascii_only (3 + 0) new_parser ?doc = Some (?html, ?p)"
    by blast
  then have run3: "parse ascii_only 3 new_parser ?doc = Some (?html, ?p)"
    by simp
  with t have "distinct (map slug_of (headings ?p))"
    by blast
  with run3 show ?thesis
    by simp
qed

subsection \<open>Headings and blockquotes\<close>

lemma heading_match_hash:
  assumes "re_match heading_re l = Some m"
  shows "\<exists>t. l = 35 # t"
proof (cases l)
  case Nil
  with assms show ?thesis
    by (simp add: re_defs heading_re_def)
next
  case (Cons c t)
  show ?thesis
  proof (cases "c = 35")
    case True
    with Cons show ?thesis by simp
  next
    case False
    with Cons assms show ?thesis
      by (simp add: re_defs heading_re_def)
  qed
qed

lemma strip_keeps_head:
  assumes "\<not> isspace c"
  shows "\<exists>t'. strip (c # t) = c # t'"
proof -
  have "\<exists>zs. dropWhile isspace (rev t @ [c]) = zs @ [c]"
    using assms by (cases "\<forall>x\<in>set (rev t). isspace x") (auto simp: dropWhile_append)
  then obtain zs where "dropWhile isspace (rev t @ [c]) = zs @ [c]"
    by blast
  with assms have "strip (c # t) = c # rev zs"
    by (simp add: strip_def)
  then show ?thesis
    by blast
qed

lemma not_space_hash: "\<not> isspace 35"
  by (simp add: isspace_def)

lemma heading_line_hash:
  assumes "re_match heading_re l = Some m"
  shows "startswith (strip l) (u ''#'')"
proof -
  from heading_match_hash [OF assms] obtain t where "l = 35 # t"
    by blast
  with strip_keeps_head [OF not_space_hash, of t] show ?thesis
    by (auto simp: startswith_def u_def)
qed

lemma parse_headings_origin:
  assumes "parse U n self markdown = Some (html, self')"
    and "h \<in> set (headings self')"
  shows "\<exists>l\<in>set (split 10 (replace [13] nl (replace [13, 10] nl markdown))).
           startswith (strip l) (u ''#'') \<and>
           (\<exists>m. re_match heading_re l = Some m \<and> fst h = length (group m 1) \<and>
                snd (snd h) = strip (group m 2))"
proof -
  let ?lines = "split 10 (replace [13] nl (replace [13, 10] nl markdown))"
  let ?origin = "\<lambda>h. \<exists>l\<in>set ?lines. startswith (strip l) (u ''#'') \<and>
           (\<exists>m. re_match heading_re l = Some m \<and> fst h = length (group m 1) \<and>
                snd (snd h) = strip (group m 2))"
  from assms(1) obtain parts where
    run: "parse_loop U n ?lines 0 [] (self\<lparr>headings := []\<rparr>) = Some (parts, self')"
    by (auto simp: parse.simps Let_def split: option.splits)
  have "\<forall>h\<in>set (headings self'). ?origin h"
  proof (rule parse_loop_invariant [OF run, where P = "\<lambda>p. \<forall>h\<in>set (headings p). ?origin h"])
    show "\<forall>h\<in>set (headings (self\<lparr>headings := []\<rparr>)). ?origin h"
      by simp
  next
    fix j and p :: parser and m
    assume j: "j < length ?lines" and m: "re_match heading_re (?lines ! j) = Some m"
      and p: "\<forall>h\<in>set (headings p). ?origin h"
    from heading_block_record [of U p m] obtain s where
      hs: "headings (snd (heading_block U p m)) =
             headings p @ [(length (group m 1), s, strip (group m 2))]"
      by (metis (no_types, lifting) parser.select_convs(1) parser.surjective parser.update_convs(1))
    have "?origin (length (group m 1), s, strip (group m 2))"
      using j m heading_line_hash [OF m] by (intro bexI [of _ "?lines ! j"]) auto
    with p hs show "\<forall>h\<in>set (headings (snd (heading_block U p m))). ?origin h"
      by auto
  qed
  with assms(2) show ?thesis
    by blast
qed

lemma hash_not_quote: "startswith s (u ''#'') \<Longrightarrow> s \<noteq> [] \<and> \<not> startswith s (u ''>'')"
  by (cases s) (auto simp: startswith_def u_def)

lemma quoted_document_no_headings:
  assumes "parse U n self markdown = Some (html, self')"
    and "list_all (\<lambda>l. strip l = [] \<or> startswith (strip l) (u ''>''))
           (split 10 (replace [13] nl (replace [13, 10] nl markdown)))"
  shows "headings self' = []"
proof (rule ccontr)
  assume "headings self' \<noteq> []"
  then obtain h where "h \<in> set (headings self')"
    by (cases "headings self'") auto
  from parse_headings_origin [OF assms(1) this] obtain l where
    "l \<in> set (split 10 (replace [13] nl (replace [13, 10] nl markdown)))"
    "startswith (strip l) (u ''#'')"
    by blast
  with assms(2) hash_not_quote [of "strip l"] show False
    by (auto simp: list_all_iff)
qed

lemma ab_lines:
  "split 10 (replace [13] nl (replace [13, 10] nl (u ''# A\<newline>> # B''))) =
     [[35, 32, 65], [62, 32, 35, 32, 66]]"
  "split 10 (replace [13] nl (replace [13, 10] nl [35, 32, 66])) = [[35, 32, 66]]"
  by (simp_all add: replace_absent split_def u_def)

lemma ab_strip:
  "strip [35, 32, 65] = [35, 32, 65]" "strip [62, 32, 35, 32, 66] = [62, 32, 35, 32, 66]"
  "strip [35, 32, 66] = [35, 32, 66]" "strip [65] = [65]" "strip [66] = [66]"
  by (simp_all add: strip_def isspace_def)

lemma ab_match:
  "re_match heading_re [35, 32, 65] = Some [1 \<mapsto> [35], 2 \<mapsto> [65]]"
  "re_match heading_re [35, 32, 66] = Some [1 \<mapsto> [35], 2 \<mapsto> [66]]"
  "re_match heading_re [62, 32, 35, 32, 66] = None"
  "re_match hr_re [62, 32, 35, 32, 66] = None"
  by (simp_all add: re_defs heading_re_def hr_re_def isspace_def u_def)

lemma ab_inline: "parse_inline [65] = [65]" "parse_inline [66] = [66]"
  by (simp_all add: inline_defs)

lemma ab_heading:
  "p = \<lparr>headings = []\<rparr> \<Longrightarrow> m = [1 \<mapsto> [35], 2 \<mapsto> [65]] \<Longrightarrow>
   heading_block U p m = (u ''<h1 id=\"a\">A</h1>'', \<lparr>headings = [(1, u ''a'', u ''A'')]\<rparr>)"
  "p = \<lparr>headings = []\<rparr> \<Longrightarrow> m = [1 \<mapsto> [35], 2 \<mapsto> [66]] \<Longrightarrow>
   heading_block U p m = (u ''<h1 id=\"b\">B</h1>'', \<lparr>headings = [(1, u ''b'', u ''B'')]\<rparr>)"
  by (simp_all add: slug_defs ascii_alnum_def ab_strip ab_inline)

lemma ab_quote:
  "i = 1 \<Longrightarrow> quote_lines [[35, 32, 65], [62, 32, 35, 32, 66]] i [] = ([[35, 32, 66]], 2)"
  by (simp add: quote_lines.simps ab_strip startswith_def u_def re_defs quote_re_def isspace_def
      sub_from.simps)

lemma ab_inner:
  "parse U (Suc (Suc d)) p [35, 32, 66] =
     Some (u ''<h1 id=\"b\">B</h1>'', \<lparr>headings = [(1, u ''b'', u ''B'')]\<rparr>)"
proof -
  have "parse_loop U (Suc (Suc d)) [[35, 32, 66]] 0 [] \<lparr>headings = []\<rparr> =
          Some ([u ''<h1 id=\"b\">B</h1>''], \<lparr>headings = [(1, u ''b'', u ''B'')]\<rparr>)"
    by (simp add: parse_loop.simps ab_strip ab_match ab_heading startswith_def fence_def)
  then show ?thesis
    by (simp only: parse.simps Let_def ab_lines parser_reset_eq) simp
qed

lemma ab_blockquote:
  "i = 1 \<Longrightarrow> blockquote U (Suc (Suc d)) [[35, 32, 65], [62, 32, 35, 32, 66]] i =
     Some (u ''<blockquote>\<newline><h1 id=\"b\">B</h1>\<newline></blockquote>'', 2)"
  by (simp add: blockquote.simps ab_quote ab_inner) (simp add: u_def nl_def)

lemma ab_run:
  "parse U (Suc (Suc (Suc (Suc d)))) q (u ''# A\<newline>> # B'') =
     Some (u ''<h1 id=\"a\">A</h1>\<newline><blockquote>\<newline><h1 id=\"b\">B</h1>\<newline></blockquote>'',
           \<lparr>headings = [(1, u ''a'', u ''A'')]\<rparr>)"
proof -
  have "parse_loop U (Suc (Suc (Suc (Suc d)))) [[35, 32, 65], [62, 32, 35, 32, 66]] 0 []
          \<lparr>headings = []\<rparr> =
          Some ([u ''<h1 id=\"a\">A</h1>'',
                 u ''<blockquote>\<newline><h1 id=\"b\">B</h1>\<newline></blockquote>''],
                \<lparr>headings = [(1, u ''a'', u ''A'')]\<rparr>)"
    by (simp add: parse_loop.simps ab_strip ab_match ab_heading ab_blockquote startswith_def
        fence_def u_def)
  then show ?thesis
    by (simp only: parse.simps Let_def ab_lines parser_reset_eq) (simp add: u_def nl_def)
qed

text \<open>
  C4: every heading in the list of a parse that returns comes from a line of the document
  itself that matches the heading pattern: the level is the number of its hashes, the
  text its trimmed rest.  Such a line starts with a hash, so it is not a line of a
  blockquote run, and a document whose lines are all blank or quoted records no heading.
  In \<^verbatim>\<open># A\<close> followed by \<^verbatim>\<open>> # B\<close> the quoted heading is rendered inside the
  blockquote, by the new parser object of \<^verbatim>\<open>_blockquote\<close>, and only \<open>A\<close> is in the
  heading list of the outer one.
\<close>

theorem blockquote_isolation:
  "(parse U n self markdown = Some (html, self') \<longrightarrow>
      (\<forall>h\<in>set (headings self').
         \<exists>l\<in>set (split 10 (replace [13] nl (replace [13, 10] nl markdown))).
           startswith (strip l) (u ''#'') \<and> \<not> startswith (strip l) (u ''>'') \<and>
           (\<exists>m. re_match heading_re l = Some m \<and> fst h = length (group m 1) \<and>
                snd (snd h) = strip (group m 2)))) \<and>
   (parse U n self markdown = Some (html, self') \<and>
    list_all (\<lambda>l. strip l = [] \<or> startswith (strip l) (u ''>''))
      (split 10 (replace [13] nl (replace [13, 10] nl markdown))) \<longrightarrow>
    headings self' = []) \<and>
   parse U (4 + d) q (u ''# A\<newline>> # B'') =
     Some (u ''<h1 id=\"a\">A</h1>\<newline><blockquote>\<newline><h1 id=\"b\">B</h1>\<newline></blockquote>'',
           \<lparr>headings = [(1, u ''a'', u ''A'')]\<rparr>)"
proof (intro conjI impI ballI)
  fix h
  assume "parse U n self markdown = Some (html, self')" "h \<in> set (headings self')"
  from parse_headings_origin [OF this] hash_not_quote
  show "\<exists>l\<in>set (split 10 (replace [13] nl (replace [13, 10] nl markdown))).
           startswith (strip l) (u ''#'') \<and> \<not> startswith (strip l) (u ''>'') \<and>
           (\<exists>m. re_match heading_re l = Some m \<and> fst h = length (group m 1) \<and>
                snd (snd h) = strip (group m 2))"
    by blast
next
  assume "parse U n self markdown = Some (html, self') \<and>
    list_all (\<lambda>l. strip l = [] \<or> startswith (strip l) (u ''>''))
      (split 10 (replace [13] nl (replace [13, 10] nl markdown)))"
  then show "headings self' = []"
    using quoted_document_no_headings by blast
next
  have "4 + d = Suc (Suc (Suc (Suc d)))"
    by simp
  then show "parse U (4 + d) q (u ''# A\<newline>> # B'') =
     Some (u ''<h1 id=\"a\">A</h1>\<newline><blockquote>\<newline><h1 id=\"b\">B</h1>\<newline></blockquote>'',
           \<lparr>headings = [(1, u ''a'', u ''A'')]\<rparr>)"
    by (simp only: ab_run)
qed

theorem blockquote_isolation_witness:
  "parse ascii_only 4 new_parser (u ''# A\<newline>> # B'') =
     Some (u ''<h1 id=\"a\">A</h1>\<newline><blockquote>\<newline><h1 id=\"b\">B</h1>\<newline></blockquote>'',
           \<lparr>headings = [(1, u ''a'', u ''A'')]\<rparr>) \<and>
   (\<exists>l\<in>set (split 10 (replace [13] nl (replace [13, 10] nl (u ''# A\<newline>> # B'')))).
      startswith (strip l) (u ''#'') \<and> \<not> startswith (strip l) (u ''>'') \<and>
      (\<exists>m. re_match heading_re l = Some m \<and> 1 = length (group m 1) \<and> u ''A'' = strip (group m 2)))"
proof -
  let ?doc = "u ''# A\<newline>> # B''"
  let ?html = "u ''<h1 id=\"a\">A</h1>\<newline><blockquote>\<newline><h1 id=\"b\">B</h1>\<newline></blockquote>''"
  let ?p = "\<lparr>headings = [(1, u ''a'', u ''A'')]\<rparr>"
  note t = blockquote_isolation [where U = ascii_only and n = 4 and self = new_parser
      and markdown = ?doc and html = ?html and self' = ?p and d = 0 and q = new_parser]
  from t have run: "parse ascii_only 4 new_parser ?doc = Some (?html, ?p)"
    by simp
  with t have "\<forall>h\<in>set (headings ?p).
         \<exists>l\<in>set (split 10 (replace [13] nl (replace [13, 10] nl ?doc))).
           startswith (strip l) (u ''#'') \<and> \<not> startswith (strip l) (u ''>'') \<and>
           (\<exists>m. re_match heading_re l = Some m \<and> fst h = length (group m 1) \<and>
                snd (snd h) = strip (group m 2))"
    by blast
  then have origin: "\<exists>l\<in>set (split 10 (replace [13] nl (replace [13, 10] nl ?doc))).
      startswith (strip l) (u ''#'') \<and> \<not> startswith (strip l) (u ''>'') \<and>
      (\<exists>m. re_match heading_re l = Some m \<and> 1 = length (group m 1) \<and> u ''A'' = strip (group m 2))"
    by simp
  from run origin show ?thesis
    by blast
qed

subsection \<open>The text of a TOC item\<close>

lemma toc_items_map: "toc_items hs items = items @ map toc_item hs"
  by (induction hs items rule: toc_items.induct) simp_all

lemma generate_toc_items:
  "fst (generate_toc p) =
     (if headings p = [] then []
      else u ''<ul class=\"toc-list\">'' @ nl @
           join nl (map (\<lambda>(lv, slug, raw).
             concat (replicate (lv - 1) (u ''  '')) @ u ''<li class=\"toc-h'' @ str_nat lv @
             u ''\"><a href=\"#'' @ slug @ u ''\">'' @ raw @ u ''</a></li>'') (headings p)) @
           nl @ u ''</ul>'')"
proof -
  have "toc_item = (\<lambda>(lv, slug, raw).
             concat (replicate (lv - 1) (u ''  '')) @ u ''<li class=\"toc-h'' @ str_nat lv @
             u ''\"><a href=\"#'' @ slug @ u ''\">'' @ raw @ u ''</a></li>'')"
    by (rule ext) (simp add: toc_item_def)
  then show ?thesis
    by (simp add: generate_toc_def toc_items_map)
qed

lemma bold_lines:
  "split 10 (replace [13] nl (replace [13, 10] nl (u ''# **A**''))) = [[35, 32, 42, 42, 65, 42, 42]]"
  by (simp add: replace_absent split_def u_def)

lemma bold_strip:
  "strip [35, 32, 42, 42, 65, 42, 42] = [35, 32, 42, 42, 65, 42, 42]"
  "strip [42, 42, 65, 42, 42] = [42, 42, 65, 42, 42]"
  by (simp_all add: strip_def isspace_def)

lemma bold_match:
  "re_match heading_re [35, 32, 42, 42, 65, 42, 42] = Some [1 \<mapsto> [35], 2 \<mapsto> [42, 42, 65, 42, 42]]"
  by (simp add: re_defs heading_re_def isspace_def u_def)

lemma bold_inline: "parse_inline [42, 42, 65, 42, 42] = u ''<strong>A</strong>''"
  by (simp add: inline_defs)

lemma bold_heading:
  "p = \<lparr>headings = []\<rparr> \<Longrightarrow> m = [1 \<mapsto> [35], 2 \<mapsto> [42, 42, 65, 42, 42]] \<Longrightarrow>
   heading_block U p m =
     (u ''<h1 id=\"a\"><strong>A</strong></h1>'', \<lparr>headings = [(1, u ''a'', u ''**A**'')]\<rparr>)"
  by (simp add: slug_defs ascii_alnum_def bold_strip bold_inline)

lemma bold_run:
  "parse U (Suc (Suc d)) q (u ''# **A**'') =
     Some (u ''<h1 id=\"a\"><strong>A</strong></h1>'', \<lparr>headings = [(1, u ''a'', u ''**A**'')]\<rparr>)"
proof -
  have "parse_loop U (Suc (Suc d)) [[35, 32, 42, 42, 65, 42, 42]] 0 [] \<lparr>headings = []\<rparr> =
          Some ([u ''<h1 id=\"a\"><strong>A</strong></h1>''],
                \<lparr>headings = [(1, u ''a'', u ''**A**'')]\<rparr>)"
    by (simp add: parse_loop.simps bold_strip bold_match bold_heading startswith_def fence_def)
  then show ?thesis
    by (simp only: parse.simps Let_def bold_lines parser_reset_eq) simp
qed

lemma bold_toc:
  "fst (generate_toc \<lparr>headings = [(1, u ''a'', u ''**A**'')]\<rparr>) =
     u ''<ul class=\"toc-list\">\<newline><li class=\"toc-h1\"><a href=\"#a\">**A**</a></li>\<newline></ul>''"
  by (simp add: generate_toc_def toc_item_def str_nat.simps u_def nl_def)

text \<open>
  C2 as stated fails: the link text of a TOC item is the raw heading text, not the
  rendered one.  For the document \<^verbatim>\<open># **A**\<close> the heading is rendered with
  \<^verbatim>\<open><strong>A</strong>\<close>, and the TOC links \<^verbatim>\<open>**A**\<close>.
\<close>

theorem toc_rendered_text_counterexample:
  "parse ascii_only 2 new_parser (u ''# **A**'') =
     Some (u ''<h1 id=\"a\"><strong>A</strong></h1>'', \<lparr>headings = [(1, u ''a'', u ''**A**'')]\<rparr>) \<and>
   parse_inline (u ''**A**'') = u ''<strong>A</strong>'' \<and>
   fst (generate_toc \<lparr>headings = [(1, u ''a'', u ''**A**'')]\<rparr>) =
     u ''<ul class=\"toc-list\">\<newline><li class=\"toc-h1\"><a href=\"#a\">**A**</a></li>\<newline></ul>'' \<and>
   fst (generate_toc \<lparr>headings = [(1, u ''a'', u ''**A**'')]\<rparr>) \<noteq>
     u ''<ul class=\"toc-list\">\<newline><li class=\"toc-h1\"><a href=\"#a\"><strong>A</strong></a></li>\<newline></ul>''"
proof -
  have "parse ascii_only 2 new_parser (u ''# **A**'') =
     Some (u ''<h1 id=\"a\"><strong>A</strong></h1>'', \<lparr>headings = [(1, u ''a'', u ''**A**'')]\<rparr>)"
    using bold_run [of ascii_only 0 new_parser] by (simp add: numeral_2_eq_2)
  moreover have "parse_inline (u ''**A**'') = u ''<strong>A</strong>''"
    using bold_inline by (simp add: u_def)
  moreover have "u ''<ul class=\"toc-list\">\<newline><li class=\"toc-h1\"><a href=\"#a\">**A**</a></li>\<newline></ul>'' \<noteq>
     u ''<ul class=\"toc-list\">\<newline><li class=\"toc-h1\"><a href=\"#a\"><strong>A</strong></a></li>\<newline></ul>''"
    by (simp add: u_def)
  ultimately show ?thesis
    using bold_toc by simp
qed

text \<open>
  C2, amended: \<^verbatim>\<open>generate_toc\<close> returns the empty string for an empty heading list;
  otherwise the list \<^verbatim>\<open><ul class="toc-list">\<close> with one line per recorded heading, in
  the order of the list: \<open>level - 1\<close> times two spaces, then the \<^verbatim>\<open>li\<close> of class
  \<^verbatim>\<open>toc-h{level}\<close> with a link to \<^verbatim>\<open>#{slug}\<close> whose text is the third component of the
  record.  For every heading that a parse records, that component is the raw heading
  text: the trimmed second group of the heading pattern on a line of the document, with
  no inline rule applied.
\<close>

theorem toc_raw_text:
  "fst (generate_toc p) =
     (if headings p = [] then []
      else u ''<ul class=\"toc-list\">'' @ nl @
           join nl (map (\<lambda>(lv, slug, raw).
             concat (replicate (lv - 1) (u ''  '')) @ u ''<li class=\"toc-h'' @ str_nat lv @
             u ''\"><a href=\"#'' @ slug @ u ''\">'' @ raw @ u ''</a></li>'') (headings p)) @
           nl @ u ''</ul>'') \<and>
   (parse U n self markdown = Some (html, self') \<longrightarrow>
      (\<forall>h\<in>set (headings self').
         \<exists>l\<in>set (split 10 (replace [13] nl (replace [13, 10] nl markdown))).
           \<exists>m. re_match heading_re l = Some m \<and> fst h = length (group m 1) \<and>
               snd (snd h) = strip (group m 2)))"
  using generate_toc_items [of p] parse_headings_origin [of U n self markdown html self']
  by blast

theorem toc_raw_text_witness:
  "parse ascii_only 2 new_parser (u ''# **A**'') =
     Some (u ''<h1 id=\"a\"><strong>A</strong></h1>'', \<lparr>headings = [(1, u ''a'', u ''**A**'')]\<rparr>) \<and>
   (\<exists>l\<in>set (split 10 (replace [13] nl (replace [13, 10] nl (u ''# **A**'')))).
      \<exists>m. re_match heading_re l = Some m \<and> 1 = length (group m 1) \<and> u ''**A**'' = strip (group m 2)) \<and>
   fst (generate_toc \<lparr>headings = [(1, u ''a'', u ''**A**'')]\<rparr>) =
     u ''<ul class=\"toc-list\">\<newline><li class=\"toc-h1\"><a href=\"#a\">**A**</a></li>\<newline></ul>''"
proof -
  let ?p = "\<lparr>headings = [(1, u ''a'', u ''**A**'')]\<rparr>"
  note t = toc_raw_text [where p = ?p and U = ascii_only and n = 2 and self = new_parser
      and markdown = "u ''# **A**''" and html = "u ''<h1 id=\"a\"><strong>A</strong></h1>''"
      and self' = ?p]
  have run: "parse ascii_only 2 new_parser (u ''# **A**'') =
     Some (u ''<h1 id=\"a\"><strong>A</strong></h1>'', ?p)"
    using bold_run [of ascii_only 0 new_parser] by (simp add: numeral_2_eq_2)
  with t have "\<forall>h\<in>set (headings ?p).
         \<exists>l\<in>set (split 10 (replace [13] nl (replace [13, 10] nl (u ''# **A**'')))).
           \<exists>m. re_match heading_re l = Some m \<and> fst h = length (group m 1) \<and>
               snd (snd h) = strip (group m 2)"
    by blast
  then have origin: "\<exists>l\<in>set (split 10 (replace [13] nl (replace [13, 10] nl (u ''# **A**'')))).
      \<exists>m. re_match heading_re l = Some m \<and> 1 = length (group m 1) \<and> u ''**A**'' = strip (group m 2)"
    by simp
  from t have "fst (generate_toc ?p) =
      u ''<ul class=\"toc-list\">'' @ nl @
           join nl (map (\<lambda>(lv, slug, raw).
             concat (replicate (lv - 1) (u ''  '')) @ u ''<li class=\"toc-h'' @ str_nat lv @
             u ''\"><a href=\"#'' @ slug @ u ''\">'' @ raw @ u ''</a></li>'') (headings ?p)) @
           nl @ u ''</ul>''"
    by simp
  then have "fst (generate_toc ?p) =
     u ''<ul class=\"toc-list\">\<newline><li class=\"toc-h1\"><a href=\"#a\">**A**</a></li>\<newline></ul>''"
    by (simp add: str_nat.simps u_def nl_def)
  with run origin show ?thesis
    by blast
qed

end
